theory Spec2Isabelle
  imports Main "HOL-Library.Word"
begin

unbundle bit_operations_syntax

section \<open>454hex2dfu: Intel HEX to DFU image converter\<close>

text \<open>
  A shallow embedding of \<^verbatim>\<open>src/tools/454hex2dfu.c\<close>.  The C type
  \<^verbatim>\<open>unsigned\<close> is a 32-bit word, \<^verbatim>\<open>char\<close> and
  \<^verbatim>\<open>unsigned char\<close> are 8-bit words.  A block of memory (the image
  obtained from \<^verbatim>\<open>malloc\<close>, the line buffer on the stack) is a list of
  bytes whose length is the size of the block.  The two accesses of the program whose index
  depends on the input, the payload read in \<^verbatim>\<open>readhex\<close> and the store
  \<^verbatim>\<open>image[address]\<close>, check the index against the block and return an
  error where the C program would touch memory outside it.
\<close>

type_synonym u8 = "8 word"
type_synonym u32 = "32 word"

datatype error = LineOverread | ImageOverflow

subsection \<open>Constants\<close>

definition PM_SIZE_IN_BYTES :: nat where [simp]: "PM_SIZE_IN_BYTES = 16384"
definition DFU_SUFFIX :: nat where [simp]: "DFU_SUFFIX = 16"

definition CODE_OFFSET_ADDRESS :: u32 where "CODE_OFFSET_ADDRESS = 0x200"
definition HIGH_ENDURANCE_ADDRESS :: u32 where "HIGH_ENDURANCE_ADDRESS = 0x1F80"
definition USB_PRODUCT_ID :: u32 where "USB_PRODUCT_ID = 0x0001"
definition USB_VENDOR_ID :: u32 where "USB_VENDOR_ID = 0x1234"

text \<open>Strings of the source as bytes.\<close>

definition bytes_of :: "string \<Rightarrow> u8 list" where
  "bytes_of s = map of_char s"

subsection \<open>readhex\<close>

text \<open>
  The value one character adds to the result.  The comparisons of the source are on
  \<^verbatim>\<open>char\<close>; the three ranges lie below 0x80, so the signedness of
  \<^verbatim>\<open>char\<close> does not change which branch is taken.
\<close>

definition hex_digit :: "u8 \<Rightarrow> u32" where
  "hex_digit c =
     (if 0x30 \<le> c \<and> c \<le> 0x39 then ucast c - 0x30
      else if 0x41 \<le> c \<and> c \<le> 0x46 then 10 + ucast c - 0x41
      else if 0x61 \<le> c \<and> c \<le> 0x66 then 10 + ucast c - 0x61
      else 0)"

text \<open>
  \<^verbatim>\<open>readhex(text, digits)\<close>, where \<^verbatim>\<open>text\<close> points at
  offset \<open>p\<close> of the block \<open>buf\<close>.  Reading at an offset outside the block is
  \<open>LineOverread\<close>.
\<close>

fun readhex_loop :: "u8 list \<Rightarrow> nat \<Rightarrow> nat \<Rightarrow> u32 \<Rightarrow> error + u32" where
  "readhex_loop buf p 0 result = Inr result"
| "readhex_loop buf p (Suc digits) result =
     (if p < length buf
      then readhex_loop buf (Suc p) digits (push_bit 4 result + hex_digit (buf ! p))
      else Inl LineOverread)"

definition readhex :: "u8 list \<Rightarrow> nat \<Rightarrow> nat \<Rightarrow> error + u32" where
  "readhex buf p digits = readhex_loop buf p digits 0"

subsection \<open>calc_modified_crc14\<close>

text \<open>One round of the loop body: the new value of \<^verbatim>\<open>crc\<close>.\<close>

definition crc14_round :: "u32 \<Rightarrow> u32 \<Rightarrow> u32" where
  "crc14_round data crc =
     (if (data AND 0x0001) XOR (crc AND 0x0001) \<noteq> 0
      then drop_bit 1 crc XOR 0x23B1
      else drop_bit 1 crc)"

text \<open>The loop \<^verbatim>\<open>for (bit = 0; bit < 16; bit++)\<close>, by the rounds left.\<close>

fun crc14_rounds :: "nat \<Rightarrow> u32 \<Rightarrow> u32 \<Rightarrow> u32" where
  "crc14_rounds 0 data crc = crc"
| "crc14_rounds (Suc n) data crc = crc14_rounds n (drop_bit 1 data) (crc14_round data crc)"

definition calc_modified_crc14 :: "u32 \<Rightarrow> u32 \<Rightarrow> u32" where
  "calc_modified_crc14 data crc = crc14_rounds 16 data crc"

subsection \<open>crc32_calc\<close>

definition crc32_table :: "u32 list" where
  "crc32_table = [
   0x00000000, 0x77073096, 0xEE0E612C, 0x990951BA,
   0x076DC419, 0x706AF48F, 0xE963A535, 0x9E6495A3,
   0x0EDB8832, 0x79DCB8A4, 0xE0D5E91E, 0x97D2D988,
   0x09B64C2B, 0x7EB17CBD, 0xE7B82D07, 0x90BF1D91,
   0x1DB71064, 0x6AB020F2, 0xF3B97148, 0x84BE41DE,
   0x1ADAD47D, 0x6DDDE4EB, 0xF4D4B551, 0x83D385C7,
   0x136C9856, 0x646BA8C0, 0xFD62F97A, 0x8A65C9EC,
   0x14015C4F, 0x63066CD9, 0xFA0F3D63, 0x8D080DF5,
   0x3B6E20C8, 0x4C69105E, 0xD56041E4, 0xA2677172,
   0x3C03E4D1, 0x4B04D447, 0xD20D85FD, 0xA50AB56B,
   0x35B5A8FA, 0x42B2986C, 0xDBBBC9D6, 0xACBCF940,
   0x32D86CE3, 0x45DF5C75, 0xDCD60DCF, 0xABD13D59,
   0x26D930AC, 0x51DE003A, 0xC8D75180, 0xBFD06116,
   0x21B4F4B5, 0x56B3C423, 0xCFBA9599, 0xB8BDA50F,
   0x2802B89E, 0x5F058808, 0xC60CD9B2, 0xB10BE924,
   0x2F6F7C87, 0x58684C11, 0xC1611DAB, 0xB6662D3D,
   0x76DC4190, 0x01DB7106, 0x98D220BC, 0xEFD5102A,
   0x71B18589, 0x06B6B51F, 0x9FBFE4A5, 0xE8B8D433,
   0x7807C9A2, 0x0F00F934, 0x9609A88E, 0xE10E9818,
   0x7F6A0DBB, 0x086D3D2D, 0x91646C97, 0xE6635C01,
   0x6B6B51F4, 0x1C6C6162, 0x856530D8, 0xF262004E,
   0x6C0695ED, 0x1B01A57B, 0x8208F4C1, 0xF50FC457,
   0x65B0D9C6, 0x12B7E950, 0x8BBEB8EA, 0xFCB9887C,
   0x62DD1DDF, 0x15DA2D49, 0x8CD37CF3, 0xFBD44C65,
   0x4DB26158, 0x3AB551CE, 0xA3BC0074, 0xD4BB30E2,
   0x4ADFA541, 0x3DD895D7, 0xA4D1C46D, 0xD3D6F4FB,
   0x4369E96A, 0x346ED9FC, 0xAD678846, 0xDA60B8D0,
   0x44042D73, 0x33031DE5, 0xAA0A4C5F, 0xDD0D7CC9,
   0x5005713C, 0x270241AA, 0xBE0B1010, 0xC90C2086,
   0x5768B525, 0x206F85B3, 0xB966D409, 0xCE61E49F,
   0x5EDEF90E, 0x29D9C998, 0xB0D09822, 0xC7D7A8B4,
   0x59B33D17, 0x2EB40D81, 0xB7BD5C3B, 0xC0BA6CAD,
   0xEDB88320, 0x9ABFB3B6, 0x03B6E20C, 0x74B1D29A,
   0xEAD54739, 0x9DD277AF, 0x04DB2615, 0x73DC1683,
   0xE3630B12, 0x94643B84, 0x0D6D6A3E, 0x7A6A5AA8,
   0xE40ECF0B, 0x9309FF9D, 0x0A00AE27, 0x7D079EB1,
   0xF00F9344, 0x8708A3D2, 0x1E01F268, 0x6906C2FE,
   0xF762575D, 0x806567CB, 0x196C3671, 0x6E6B06E7,
   0xFED41B76, 0x89D32BE0, 0x10DA7A5A, 0x67DD4ACC,
   0xF9B9DF6F, 0x8EBEEFF9, 0x17B7BE43, 0x60B08ED5,
   0xD6D6A3E8, 0xA1D1937E, 0x38D8C2C4, 0x4FDFF252,
   0xD1BB67F1, 0xA6BC5767, 0x3FB506DD, 0x48B2364B,
   0xD80D2BDA, 0xAF0A1B4C, 0x36034AF6, 0x41047A60,
   0xDF60EFC3, 0xA867DF55, 0x316E8EEF, 0x4669BE79,
   0xCB61B38C, 0xBC66831A, 0x256FD2A0, 0x5268E236,
   0xCC0C7795, 0xBB0B4703, 0x220216B9, 0x5505262F,
   0xC5BA3BBE, 0xB2BD0B28, 0x2BB45A92, 0x5CB36A04,
   0xC2D7FFA7, 0xB5D0CF31, 0x2CD99E8B, 0x5BDEAE1D,
   0x9B64C2B0, 0xEC63F226, 0x756AA39C, 0x026D930A,
   0x9C0906A9, 0xEB0E363F, 0x72076785, 0x05005713,
   0x95BF4A82, 0xE2B87A14, 0x7BB12BAE, 0x0CB61B38,
   0x92D28E9B, 0xE5D5BE0D, 0x7CDCEFB7, 0x0BDBDF21,
   0x86D3D2D4, 0xF1D4E242, 0x68DDB3F8, 0x1FDA836E,
   0x81BE16CD, 0xF6B9265B, 0x6FB077E1, 0x18B74777,
   0x88085AE6, 0xFF0F6A70, 0x66063BCA, 0x11010B5C,
   0x8F659EFF, 0xF862AE69, 0x616BFFD3, 0x166CCF45,
   0xA00AE278, 0xD70DD2EE, 0x4E048354, 0x3903B3C2,
   0xA7672661, 0xD06016F7, 0x4969474D, 0x3E6E77DB,
   0xAED16A4A, 0xD9D65ADC, 0x40DF0B66, 0x37D83BF0,
   0xA9BCAE53, 0xDEBB9EC5, 0x47B2CF7F, 0x30B5FFE9,
   0xBDBDF21C, 0xCABAC28A, 0x53B39330, 0x24B4A3A6,
   0xBAD03605, 0xCDD70693, 0x54DE5729, 0x23D967BF,
   0xB3667A2E, 0xC4614AB8, 0x5D681B02, 0x2A6F2B94,
   0xB40BBE37, 0xC30C8EA1, 0x5A05DF1B, 0x2D02EF8D
  ]"

text \<open>
  \<^verbatim>\<open>crc32_calc(crc, buffer, length)\<close>; \<open>buffer\<close> is the memory from the
  pointer to the end of its block.  The program calls it once, with 16396 bytes of a block
  of 16400, so the second equation is never reached from \<open>main\<close>.
\<close>

fun crc32_calc :: "u32 \<Rightarrow> u8 list \<Rightarrow> nat \<Rightarrow> u32" where
  "crc32_calc crc buffer 0 = crc"
| "crc32_calc crc [] (Suc n) = crc"
| "crc32_calc crc (b # buffer) (Suc n) =
     crc32_calc (crc32_table ! unat ((crc XOR ucast b) AND 0xff) XOR drop_bit 8 crc) buffer n"

subsection \<open>The state of main\<close>

text \<open>
  The image block, the two bits of \<^verbatim>\<open>flags\<close> and
  \<^verbatim>\<open>upper_address\<close>.  The locals \<^verbatim>\<open>count\<close>,
  \<^verbatim>\<open>address\<close> and \<^verbatim>\<open>ptr\<close> are set anew for every line
  and are arguments of the loops below.
\<close>

record session =
  image_buf :: "u8 list"
  out_of_bounds :: bool
  crc_overlap :: bool
  upper_address :: u32

text \<open>
  \<^verbatim>\<open>malloc\<close> and the declaration of \<^verbatim>\<open>line\<close> give blocks
  whose contents are not initialised: whatever the environment left there.
\<close>

definition uninitialised :: "(nat \<Rightarrow> u8) \<Rightarrow> nat \<Rightarrow> u8 list" where
  "uninitialised junk n = map junk [0..<n]"

text \<open>
  The loop \<^verbatim>\<open>for (address = 0; address < PM_SIZE_IN_BYTES; address += 2)\<close>.
  The counter stays below 16386, so it is a natural number here.
\<close>

function sentinel_fill :: "nat \<Rightarrow> u8 list \<Rightarrow> u8 list" where
  "sentinel_fill address img =
     (if address < PM_SIZE_IN_BYTES
      then sentinel_fill (address + 2) (img[address + 0 := 0xFF, address + 1 := 0x3F])
      else img)"
  by pat_completeness auto
termination
  by (relation "measure (\<lambda>(address, img). PM_SIZE_IN_BYTES - address)") auto

subsection \<open>Reading the input\<close>

text \<open>
  \<^verbatim>\<open>fgets(line, n, input)\<close>: the characters taken from the stream, at most
  \<open>n - 1\<close> and none after a newline, and the rest of the stream.
\<close>

fun fgets_chars :: "nat \<Rightarrow> u8 list \<Rightarrow> u8 list \<times> u8 list" where
  "fgets_chars 0 stream = ([], stream)"
| "fgets_chars (Suc n) [] = ([], [])"
| "fgets_chars (Suc n) (c # stream) =
     (if c = 0x0A then ([c], stream)
      else (case fgets_chars n stream of (l, rest) \<Rightarrow> (c # l, rest)))"

text \<open>
  The characters and a terminating NUL overwrite the start of the buffer; the bytes behind
  them keep what an earlier line (or the stack) left there.
\<close>

definition fgets :: "u8 list \<Rightarrow> nat \<Rightarrow> u8 list \<Rightarrow> u8 list \<times> u8 list" where
  "fgets line n stream =
     (case fgets_chars (n - 1) stream of
        (l, rest) \<Rightarrow> (l @ [0] @ drop (Suc (length l)) line, rest))"

text \<open>
  \<^verbatim>\<open>0 == strncmp(line + 7, t, 2)\<close> for a literal \<open>t\<close> of two characters,
  neither of them NUL: both characters are equal.
\<close>

definition record_type :: "u8 list \<Rightarrow> string \<Rightarrow> bool" where
  "record_type line t = (take 2 (drop 7 line) = bytes_of t)"

text \<open>
  The loop \<^verbatim>\<open>while (count--)\<close> of a data record, by the bytes left.
  \<^verbatim>\<open>ptr\<close> is the offset into \<open>line\<close>.  The right-hand side
  \<^verbatim>\<open>readhex(ptr, 2)\<close> is computed, converted to a byte and stored at
  \<^verbatim>\<open>image[address]\<close>; a store outside the block is \<open>ImageOverflow\<close>.
\<close>

fun data_record :: "nat \<Rightarrow> u32 \<Rightarrow> nat \<Rightarrow> u8 list \<Rightarrow> session \<Rightarrow> error + session" where
  "data_record 0 address ptr line st = Inr st"
| "data_record (Suc count) address ptr line st =
     (if address < 0x400 \<or> address \<ge> 0x8000
      then data_record count (address + 1) (ptr + 2) line (st\<lparr>out_of_bounds := True\<rparr>)
      else (case readhex line ptr 2 of
              Inl e \<Rightarrow> Inl e
            | Inr v \<Rightarrow>
                if unat address < length (image_buf st)
                then data_record count (address + 1) (ptr + 2) line
                       (st\<lparr>image_buf := (image_buf st)[unat address := ucast v]\<rparr>)
                else Inl ImageOverflow))"

text \<open>
  The body of \<^verbatim>\<open>if (fgets(line, sizeof(line), input))\<close>.  The boolean of
  the result is the \<^verbatim>\<open>break\<close> of an end-of-file record.
\<close>

definition process_line :: "session \<Rightarrow> u8 list \<Rightarrow> error + (session \<times> bool)" where
  "process_line st line =
     (if line ! 0 = 0x3A then
        (case readhex line 1 2 of
           Inl e \<Rightarrow> Inl e
         | Inr count \<Rightarrow>
            (case readhex line 3 4 of
               Inl e \<Rightarrow> Inl e
             | Inr address \<Rightarrow>
                 if record_type line ''00'' \<and> upper_address st = 0 then
                   (case data_record (unat count) address 9 line st of
                      Inl e \<Rightarrow> Inl e
                    | Inr st' \<Rightarrow> Inr (st', False))
                 else if record_type line ''04'' then
                   (case readhex line 9 4 of
                      Inl e \<Rightarrow> Inl e
                    | Inr u \<Rightarrow> Inr (st\<lparr>upper_address := u\<rparr>, False))
                 else if record_type line ''01'' then Inr (st, True)
                 else Inr (st, False)))
      else Inr (st, False))"

text \<open>
  The loop \<^verbatim>\<open>while (!feof(input))\<close>.  At the end of the stream
  \<^verbatim>\<open>fgets\<close> returns NULL and sets the end-of-file indicator, and the loop
  ends; before it, every call takes at least one character.
\<close>

function read_loop :: "session \<Rightarrow> u8 list \<Rightarrow> u8 list \<Rightarrow> error + session" where
  "read_loop st line [] = Inr st"
| "read_loop st line (c # stream) =
     (case fgets line 256 (c # stream) of
        (line', rest) \<Rightarrow>
          (case process_line st line' of
             Inl e \<Rightarrow> Inl e
           | Inr (st', stop) \<Rightarrow> if stop then Inr st' else read_loop st' line' rest))"
  by pat_completeness auto
termination
proof (relation "measure (\<lambda>(st, line, stream). length stream)")
  show "wf (measure (\<lambda>(st, line, stream). length stream))" by simp
next
  fix st :: session and line c stream x line' rest r x2 st' stop
  have shorter: "fgets_chars (Suc n) (d # s) = (l, t) \<Longrightarrow> length t \<le> length s" for n d s l t
  proof (induction n arbitrary: d s l t)
    case 0
    then show ?case by (auto split: if_splits)
  next
    case (Suc n)
    show ?case
    proof (cases s)
      case Nil
      with Suc.prems show ?thesis by (auto split: if_splits)
    next
      case (Cons d' s')
      with Suc.prems Suc.IH [of d' s'] show ?thesis
        by (auto split: if_splits prod.splits)
    qed
  qed
  assume "(line', rest) = fgets line 256 (c # stream)"
  then obtain l where "fgets_chars (Suc 254) (c # stream) = (l, rest)"
    by (auto simp: fgets_def numeral_eq_Suc split: prod.splits)
  then have "length rest \<le> length stream"
    by (rule shorter)
  then show "((st', line', rest), (st, line, c # stream))
        \<in> measure (\<lambda>(st, line, stream). length stream)"
    by simp
qed

subsection \<open>The CRC-14 pass\<close>

text \<open>
  The loop \<^verbatim>\<open>for (;;)\<close> behind
  \<^verbatim>\<open>address = CODE_OFFSET_ADDRESS << 1; crc = 0;\<close>.  It ends only when
  \<^verbatim>\<open>address + 2\<close> meets the boundary, so it is a partial function:
  \<open>None\<close> is a loop that never ends.  From \<open>main\<close> it starts at 0x400
  and ends at 0x3EFE (\<open>crc14_pass_result\<close> below), so that its reads and its two
  stores stay inside the 16400 bytes of the image.
\<close>

partial_function (option) crc14_loop :: "u32 \<Rightarrow> u32 \<Rightarrow> session \<Rightarrow> session option" where
  "crc14_loop address crc st =
     (if push_bit 1 HIGH_ENDURANCE_ADDRESS = address + 2
      then Some (st\<lparr>crc_overlap :=
                        (0xFF \<noteq> image_buf st ! unat (address + 0)
                         \<or> 0x3F \<noteq> image_buf st ! unat (address + 1)),
                    image_buf := (image_buf st)
                        [unat (address + 0) := ucast (crc AND 0x00FF),
                         unat (address + 1) := ucast (drop_bit 8 (crc AND 0xFF00))]\<rparr>)
      else crc14_loop (address + 2)
             (calc_modified_crc14
                (ucast (image_buf st ! unat (address + 0))
                 + push_bit 8 (ucast (image_buf st ! unat (address + 1)))) crc) st)"

text \<open>Lines 136 to 152: the loop from \<^verbatim>\<open>CODE_OFFSET_ADDRESS << 1\<close> with register 0.\<close>

definition crc14_pass :: "session \<Rightarrow> session option" where
  "crc14_pass st = crc14_loop (push_bit 1 CODE_OFFSET_ADDRESS) 0 st"

subsection \<open>The DFU suffix\<close>

text \<open>
  The twelve stores \<^verbatim>\<open>suffix[count++] = ...\<close> in front of the CRC-32,
  with \<^verbatim>\<open>suffix = image + PM_SIZE_IN_BYTES\<close>.
\<close>

definition put_suffix :: "u8 list \<Rightarrow> u8 list" where
  "put_suffix img = img
     [PM_SIZE_IN_BYTES + 0 := 0xFF,
      PM_SIZE_IN_BYTES + 1 := 0xFF,
      PM_SIZE_IN_BYTES + 2 := ucast (drop_bit 0 (USB_PRODUCT_ID AND 0x00FF)),
      PM_SIZE_IN_BYTES + 3 := ucast (drop_bit 8 (USB_PRODUCT_ID AND 0xFF00)),
      PM_SIZE_IN_BYTES + 4 := ucast (drop_bit 0 (USB_VENDOR_ID AND 0x00FF)),
      PM_SIZE_IN_BYTES + 5 := ucast (drop_bit 8 (USB_VENDOR_ID AND 0xFF00)),
      PM_SIZE_IN_BYTES + 6 := 0x00,
      PM_SIZE_IN_BYTES + 7 := 0x01,
      PM_SIZE_IN_BYTES + 8 := of_char CHR ''U'',
      PM_SIZE_IN_BYTES + 9 := of_char CHR ''F'',
      PM_SIZE_IN_BYTES + 10 := of_char CHR ''D'',
      PM_SIZE_IN_BYTES + 11 := of_nat DFU_SUFFIX]"

text \<open>The four stores of \<^verbatim>\<open>dwCRC\<close>.\<close>

definition put_crc32 :: "u32 \<Rightarrow> u8 list \<Rightarrow> u8 list" where
  "put_crc32 crc img = img
     [PM_SIZE_IN_BYTES + 12 := ucast (drop_bit 0 (crc AND 0x000000FF)),
      PM_SIZE_IN_BYTES + 13 := ucast (drop_bit 8 (crc AND 0x0000FF00)),
      PM_SIZE_IN_BYTES + 14 := ucast (drop_bit 16 (crc AND 0x00FF0000)),
      PM_SIZE_IN_BYTES + 15 := ucast (drop_bit 24 (crc AND 0xFF000000))]"

text \<open>
  Lines 160 to 184: the suffix, the CRC-32 over \<^verbatim>\<open>PM_SIZE_IN_BYTES + count\<close>
  bytes with \<^verbatim>\<open>count\<close> = 12, its four bytes, and the bytes that
  \<^verbatim>\<open>fwrite(image, 1, PM_SIZE_IN_BYTES + count, output)\<close> writes with
  \<^verbatim>\<open>count\<close> = 16 (which is what the \<^verbatim>\<open>assert\<close> checks).
\<close>

definition dfu_file :: "u8 list \<Rightarrow> u8 list" where
  "dfu_file img =
     take (PM_SIZE_IN_BYTES + 16)
       (put_crc32 (crc32_calc 0xFFFFFFFF (put_suffix img) (PM_SIZE_IN_BYTES + 12))
          (put_suffix img))"

subsection \<open>main\<close>

text \<open>
  What main takes from its environment: the files by path, whether a path can be opened
  for writing, whether \<^verbatim>\<open>malloc\<close> succeeds, and the bytes found in fresh
  heap and stack memory.
\<close>

record env =
  files :: "string \<rightharpoonup> u8 list"
  can_write :: "string \<Rightarrow> bool"
  malloc_ok :: bool
  heap_junk :: "nat \<Rightarrow> u8"
  stack_junk :: "nat \<Rightarrow> u8"

text \<open>
  What main leaves: the value it returns, the lines printed to standard error in order, and
  the files.
\<close>

record outcome =
  exit_status :: int
  stderr :: "string list"
  files_after :: "string \<rightharpoonup> u8 list"

definition newline :: string where
  "newline = [CHR 0x0A]"

definition msg_usage :: "string \<Rightarrow> string" where
  "msg_usage prog = prog @ '' <input_ihex> <output_dfu>'' @ newline"

definition msg_malloc :: string where
  "msg_malloc = ''ERROR: unable to allocate memory'' @ newline"

definition msg_input :: "string \<Rightarrow> string" where
  "msg_input path = ''ERROR: unable to open input file '' @ path @ newline"

definition msg_output :: "string \<Rightarrow> string" where
  "msg_output path = ''ERROR: unable to open output file '' @ path @ newline"

definition msg_out_of_bounds :: string where
  "msg_out_of_bounds =
     ''ERROR: supplied input file is faulty and used out-of-bounds addresses'' @ newline"

definition msg_crc_overlap :: string where
  "msg_crc_overlap =
     ''ERROR: CRC address was occupied; app is in conflict with bootloader'' @ newline"

text \<open>
  \<^verbatim>\<open>fopen(argv[2], "wb")\<close> creates the file, or truncates the one that is
  there, before anything is read.
\<close>

definition opened :: "string list \<Rightarrow> env \<Rightarrow> (string \<rightharpoonup> u8 list)" where
  "opened argv e = (files e)(argv ! 2 \<mapsto> [])"

text \<open>The state in front of the read loop (lines 63 and 87 to 94).\<close>

definition initial :: "env \<Rightarrow> session" where
  "initial e =
     \<lparr>image_buf = sentinel_fill 0 (uninitialised (heap_junk e) (PM_SIZE_IN_BYTES + DFU_SUFFIX)),
      out_of_bounds = False, crc_overlap = False, upper_address = 0\<rparr>"

text \<open>
  The read loop over the input as it is once the output has been opened (lines 96 to 126).
\<close>

definition read_input :: "string list \<Rightarrow> env \<Rightarrow> error + session" where
  "read_input argv e =
     read_loop (initial e) (uninitialised (stack_junk e) 256) (the (opened argv e (argv ! 1)))"

text \<open>
  \<open>main\<close>.  \<open>Inl\<close> is an access outside a block, \<open>None\<close> a loop that
  never ends.
\<close>

definition main :: "string list \<Rightarrow> env \<Rightarrow> (error + outcome) option" where
  "main argv e =
     (if length argv < 3 then
        Some (Inr \<lparr>exit_status = - 1, stderr = [msg_usage (argv ! 0)], files_after = files e\<rparr>)
      else if \<not> malloc_ok e then
        Some (Inr \<lparr>exit_status = - 1, stderr = [msg_malloc], files_after = files e\<rparr>)
      else if files e (argv ! 1) = None then
        Some (Inr \<lparr>exit_status = - 1, stderr = [msg_input (argv ! 1)], files_after = files e\<rparr>)
      else if \<not> can_write e (argv ! 2) then
        Some (Inr \<lparr>exit_status = - 1, stderr = [msg_output (argv ! 2)], files_after = files e\<rparr>)
      else
        (case read_input argv e of
           Inl err \<Rightarrow> Some (Inl err)
         | Inr st \<Rightarrow>
             if out_of_bounds st then
               Some (Inr \<lparr>exit_status = 0, stderr = [msg_out_of_bounds],
                          files_after = opened argv e\<rparr>)
             else
               (case crc14_pass st of
                  None \<Rightarrow> None
                | Some st' \<Rightarrow>
                    if crc_overlap st' then
                      Some (Inr \<lparr>exit_status = 0, stderr = [msg_crc_overlap],
                                 files_after = opened argv e\<rparr>)
                    else
                      Some (Inr \<lparr>exit_status = 0, stderr = [],
                                 files_after =
                                   (opened argv e)(argv ! 2 \<mapsto> dfu_file (image_buf st'))\<rparr>))))"

section \<open>Notions used to state the properties\<close>

text \<open>
  The word the CRC-14 pass reads at byte offset \<open>a\<close> of the image: the expression
  \<^verbatim>\<open>(unsigned)image[address + 0] + ((unsigned)image[address + 1] << 8)\<close>.
\<close>

definition image_word :: "u8 list \<Rightarrow> nat \<Rightarrow> u32" where
  "image_word img a = ucast (img ! (a + 0)) + push_bit 8 (ucast (img ! (a + 1)))"

text \<open>
  The register after the first \<open>n\<close> words behind byte offset 0x400 have been folded
  into it, starting from 0.
\<close>

definition crc14_fold :: "u8 list \<Rightarrow> nat \<Rightarrow> u32" where
  "crc14_fold img n =
     foldl (\<lambda>crc k. calc_modified_crc14 (image_word img (0x400 + 2 * k)) crc) 0 [0..<n]"

text \<open>
  The CRC-14 as the specification words it: sixteen iterations of
  \<^verbatim>\<open>bit = (data & 1) XOR (crc & 1); crc >>= 1; data >>= 1; if bit: crc ^= 0x23B1\<close>
  on the pair of \<open>data\<close> and \<open>crc\<close>, and a little-endian word as the low byte plus
  256 times the high byte.
\<close>

definition spec_crc14_iteration :: "u32 \<times> u32 \<Rightarrow> u32 \<times> u32" where
  "spec_crc14_iteration = (\<lambda>(data, crc).
     let bit = (data AND 1) XOR (crc AND 1);
         crc = drop_bit 1 crc;
         data = drop_bit 1 data
     in (data, if bit \<noteq> 0 then crc XOR 0x23B1 else crc))"

definition spec_crc14 :: "u32 \<Rightarrow> u32 \<Rightarrow> u32" where
  "spec_crc14 data crc = snd ((spec_crc14_iteration ^^ 16) (data, crc))"

definition spec_le_word :: "u8 \<Rightarrow> u8 \<Rightarrow> u32" where
  "spec_le_word low high = of_nat (unat low + 256 * unat high)"

text \<open>
  The CRC-14 is linear over XOR, so many words of one value can be folded at once.  With
  \<open>rs\<close> the images of the fourteen single-bit registers under \<open>k\<close> words of
  zero data, \<open>apply_rows rs\<close> is that map on any 14-bit register; with \<open>s\<close> the
  register after \<open>k\<close> words of the value from 0, \<open>crc14_jump n rs s t\<close> takes
  the register \<open>t\<close> over \<open>n * k\<close> more words of the value, doubling \<open>k\<close>
  for every binary digit of \<open>n\<close>.
\<close>

fun apply_rows :: "u32 list \<Rightarrow> u32 \<Rightarrow> u32" where
  "apply_rows [] v = 0"
| "apply_rows (r # rs) v = (if bit v 0 then r else 0) XOR apply_rows rs (drop_bit 1 v)"

function crc14_jump :: "nat \<Rightarrow> u32 list \<Rightarrow> u32 \<Rightarrow> u32 \<Rightarrow> u32" where
  "crc14_jump n rs s t =
     (if n = 0 then t
      else crc14_jump (n div 2) (map (apply_rows rs) rs) (s XOR apply_rows rs s)
             (if odd n then s XOR apply_rows rs t else t))"
  by pat_completeness auto
termination
  by (relation "measure (\<lambda>(n, rs, s, t). n)") auto

declare crc14_jump.simps [simp del]

text \<open>The image the CRC-14 pass leaves, and its test of the checksum location.\<close>

definition with_crc14 :: "u8 list \<Rightarrow> u8 list" where
  "with_crc14 img = img
     [0x3EFE := ucast (crc14_fold img 7551 AND 0x00FF),
      0x3EFF := ucast (drop_bit 8 (crc14_fold img 7551 AND 0xFF00))]"

definition occupied :: "u8 list \<Rightarrow> bool" where
  "occupied img = (0xFF \<noteq> img ! 0x3EFE \<or> 0x3F \<noteq> img ! 0x3EFF)"

text \<open>
  The CRC-32 as the specification words it.  One bit step of the reflected IEEE 802.3
  polynomial 0xEDB88320, a byte as eight bit steps on the register XOR the byte, the
  register from 0xFFFFFFFF with nothing applied at the end, and the little-endian bytes of a
  32-bit value.
\<close>

definition spec_crc32_bit :: "u32 \<Rightarrow> u32" where
  "spec_crc32_bit crc =
     (if crc AND 1 \<noteq> 0 then drop_bit 1 crc XOR 0xEDB88320 else drop_bit 1 crc)"

definition spec_crc32_byte :: "u32 \<Rightarrow> u8 \<Rightarrow> u32" where
  "spec_crc32_byte crc b = (spec_crc32_bit ^^ 8) (crc XOR ucast b)"

definition spec_crc32_register :: "u8 list \<Rightarrow> u32" where
  "spec_crc32_register bytes = foldl spec_crc32_byte 0xFFFFFFFF bytes"

definition spec_le_bytes32 :: "u32 \<Rightarrow> u8 list" where
  "spec_le_bytes32 w =
     [of_nat (unat w mod 256), of_nat (unat w div 256 mod 256),
      of_nat (unat w div 65536 mod 256), of_nat (unat w div 16777216 mod 256)]"

text \<open>
  The table-driven step \<^verbatim>\<open>crc32_table[(crc ^ byte) & 0xff] ^ (crc >> 8)\<close>
  of \<open>crc32_calc\<close>, and the table as the bit steps generate it.
\<close>

definition table_step :: "u32 \<Rightarrow> u8 \<Rightarrow> u32" where
  "table_step crc b = crc32_table ! unat ((crc XOR ucast b) AND 0xff) XOR drop_bit 8 crc"

fun crc32_bits :: "nat \<Rightarrow> u32 \<Rightarrow> u32" where
  "crc32_bits 0 crc = crc"
| "crc32_bits (Suc n) crc = crc32_bits n (spec_crc32_bit crc)"

fun table_from :: "nat \<Rightarrow> u32 \<Rightarrow> u32 list" where
  "table_from 0 x = []"
| "table_from (Suc n) x = crc32_bits 8 x # table_from n (x + 1)"

text \<open>The twelve bytes of the suffix in front of \<^verbatim>\<open>dwCRC\<close>.\<close>

definition suffix_fields :: "u8 list" where
  "suffix_fields = [0xFF, 0xFF, 0x01, 0x00, 0x34, 0x12, 0x00, 0x01, 0x55, 0x46, 0x44, 0x10]"

text \<open>
  Examples: a command line, an environment whose input file holds a given text, a line
  buffer holding a short line over zeroes, a session with a given
  \<^verbatim>\<open>upper_address\<close>, and four inputs of one record each: a byte at address
  0x0000, a byte at address 0x4010, two zero bytes at 0x3EFE, and 124 zero bytes at 0x0400
  (each with its Intel HEX checksum).
\<close>

definition argv0 :: "string list" where
  "argv0 = [''454hex2dfu'', ''in.hex'', ''out.dfu'']"

definition env_of :: "string \<Rightarrow> env" where
  "env_of text =
     \<lparr>files = [''in.hex'' \<mapsto> bytes_of text], can_write = (\<lambda>path. True), malloc_ok = True,
      heap_junk = (\<lambda>i. 0), stack_junk = (\<lambda>i. 0)\<rparr>"



definition low_record :: string where
  "low_record = '':01000000AA55'' @ newline"

definition high_record :: string where
  "high_record = '':01401000AA05'' @ newline"

definition seed_record :: string where
  "seed_record = '':023EFE000000C2'' @ newline"

definition long_record :: string where
  "long_record = '':7C040000'' @ replicate 248 (CHR ''0'') @ ''80'' @ newline"

definition empty_input_outcome :: outcome where
  "empty_input_outcome =
     \<lparr>exit_status = 0, stderr = [],
      files_after = (opened argv0 (env_of []))
         (argv0 ! 2 \<mapsto> dfu_file (with_crc14 (image_buf (initial (env_of [])))))\<rparr>"

section \<open>Running the program\<close>

text \<open>
  The recursive equations of the two loops are unfolded by hand.  The image in front of the
  read loop has 16400 bytes, the first 16384 of them the erased pattern.
\<close>

declare sentinel_fill.simps [simp del]

declare read_loop.simps [simp del]

lemma length_uninitialised [simp]: "length (uninitialised junk n) = n"
  by (simp add: uninitialised_def)

lemma nth_uninitialised [simp]: "i < n \<Longrightarrow> uninitialised junk n ! i = junk i"
  by (simp add: uninitialised_def)

lemma length_sentinel_fill [simp]: "length (sentinel_fill a img) = length img"
proof (induction a img rule: sentinel_fill.induct)
  case (1 address img)
  then show ?case by (subst sentinel_fill.simps) simp
qed

lemma nth_sentinel_fill:
  "even a \<Longrightarrow> i < length img \<Longrightarrow>
   sentinel_fill a img ! i =
     (if a \<le> i \<and> i < 16384 then (if even i then 0xFF else 0x3F) else img ! i)"
proof (induction a img rule: sentinel_fill.induct)
  case (1 address img)
  show ?case
  proof (cases "address < PM_SIZE_IN_BYTES")
    case True
    have "sentinel_fill address img ! i =
          sentinel_fill (address + 2) (img[address + 0 := 0xFF, address + 1 := 0x3F]) ! i"
      using True by (subst sentinel_fill.simps) simp
    also have "\<dots> = (if address + 2 \<le> i \<and> i < 16384 then (if even i then 0xFF else 0x3F)
                        else img[address + 0 := 0xFF, address + 1 := 0x3F] ! i)"
      using "1.IH" [OF True] "1.prems" by simp
    also have "\<dots> = (if address \<le> i \<and> i < 16384 then (if even i then 0xFF else 0x3F) else img ! i)"
    proof -
      consider "i = address" | "i = Suc address" | "i < address" | "address + 2 \<le> i"
        by linarith
      then show ?thesis
      proof cases
        case 1
        with "1.prems" True show ?thesis by simp
      next
        case 2
        from "1.prems"(1) True have "address < 16383"
          by (auto elim!: evenE)
        with 2 "1.prems" show ?thesis by simp
      next
        case 3
        with "1.prems" True show ?thesis by simp
      next
        case 4
        with "1.prems" True show ?thesis by simp
      qed
    qed
    finally show ?thesis .
  next
    case False
    then show ?thesis by (subst sentinel_fill.simps) auto
  qed
qed

lemma length_initial [simp]: "length (image_buf (initial e)) = 16400"
  by (simp add: initial_def)

lemma nth_initial:
  "i < 16384 \<Longrightarrow> image_buf (initial e) ! i = (if even i then 0xFF else 0x3F)"
  by (simp add: initial_def nth_sentinel_fill)

lemma initial_flags [simp]:
  "out_of_bounds (initial e) = False" "crc_overlap (initial e) = False" "upper_address (initial e) = 0"
  by (simp_all add: initial_def)

text \<open>Equations that run the loops on numerals, and the definitions a run unfolds.\<close>

lemma fgets_chars_numeral:
  "fgets_chars (numeral k) (c # stream) =
     (if c = 0x0A then ([c], stream)
      else (case fgets_chars (pred_numeral k) stream of (l, rest) \<Rightarrow> (c # l, rest)))"
  "fgets_chars (numeral k) [] = ([], [])"
  by (simp_all add: numeral_eq_Suc)

lemma readhex_loop_numeral:
  "readhex_loop buf p (numeral k) result =
     (if p < length buf
      then readhex_loop buf (Suc p) (pred_numeral k) (push_bit 4 result + hex_digit (buf ! p))
      else Inl LineOverread)"
  by (simp add: numeral_eq_Suc)

lemma data_record_numeral:
  "data_record (numeral k) address ptr line st =
     (if address < 0x400 \<or> address \<ge> 0x8000
      then data_record (pred_numeral k) (address + 1) (ptr + 2) line (st\<lparr>out_of_bounds := True\<rparr>)
      else (case readhex line ptr 2 of
              Inl e \<Rightarrow> Inl e
            | Inr v \<Rightarrow>
                if unat address < length (image_buf st)
                then data_record (pred_numeral k) (address + 1) (ptr + 2) line
                       (st\<lparr>image_buf := (image_buf st)[unat address := ucast v]\<rparr>)
                else Inl ImageOverflow))"
  by (simp add: numeral_eq_Suc)

lemmas run_simps = main_def argv0_def env_of_def read_input_def opened_def bytes_of_def newline_def
      read_loop.simps fgets_def fgets_chars_numeral process_line_def readhex_def readhex_loop_numeral
      hex_digit_def record_type_def data_record_numeral

text \<open>
  A line without a newline among its first \<open>n\<close> characters is cut there.
  \<open>readhex\<close> returns a value when its digits lie inside the block, and
  \<open>LineOverread\<close> when they do not.
\<close>

lemma fgets_chars_no_newline:
  "0x0A \<notin> set (take n stream) \<Longrightarrow> fgets_chars n stream = (take n stream, drop n stream)"
proof (induction n arbitrary: stream)
  case 0
  show ?case by simp
next
  case (Suc n)
  then show ?case by (cases stream) auto
qed

lemma readhex_loop_inside:
  "p + d \<le> length buf \<Longrightarrow> \<exists>v. readhex_loop buf p d r = Inr v"
  by (induction d arbitrary: p r) simp_all


lemma readhex_loop_outside:
  "0 < d \<Longrightarrow> length buf < p + d \<Longrightarrow> readhex_loop buf p d r = Inl LineOverread"
proof (induction d arbitrary: p r)
  case 0
  then show ?case by simp
next
  case (Suc d)
  show ?case
  proof (cases "p < length buf")
    case True
    with Suc.prems have "0 < d" "length buf < Suc p + d" by simp_all
    with True Suc.IH [of "Suc p"] show ?thesis by simp
  next
    case False
    then show ?thesis by simp
  qed
qed

text \<open>
  The read loop keeps the size of the image and never touches
  \<^verbatim>\<open>crc_overlap\<close>.
\<close>

lemma data_record_keeps:
  "data_record count address ptr line st = Inr st' \<Longrightarrow>
   length (image_buf st') = length (image_buf st) \<and> upper_address st' = upper_address st
   \<and> crc_overlap st' = crc_overlap st"
proof (induction count arbitrary: address ptr st)
  case 0
  then show ?case by simp
next
  case (Suc count)
  show ?case
  proof (cases "address < 0x400 \<or> address \<ge> 0x8000")
    case True
    with Suc.prems Suc.IH [of "address + 1" "ptr + 2" "st\<lparr>out_of_bounds := True\<rparr>"]
    show ?thesis by simp
  next
    case False
    with Suc.prems obtain v where v: "readhex line ptr 2 = Inr v"
      and a: "unat address < length (image_buf st)"
      and r: "data_record count (address + 1) (ptr + 2) line
                (st\<lparr>image_buf := (image_buf st)[unat address := ucast v]\<rparr>) = Inr st'"
      by (auto split: sum.splits if_splits)
    from Suc.IH [OF r] show ?thesis by simp
  qed
qed

lemma process_line_keeps:
  "process_line st line = Inr (st', stop) \<Longrightarrow>
   length (image_buf st') = length (image_buf st) \<and> crc_overlap st' = crc_overlap st"
  by (auto simp: process_line_def split: if_splits sum.splits dest: data_record_keeps)

lemma read_loop_keeps:
  "read_loop st line stream = Inr st' \<Longrightarrow>
   length (image_buf st') = length (image_buf st) \<and> crc_overlap st' = crc_overlap st"
proof (induction st line stream rule: read_loop.induct)
  case (1 st line)
  then show ?case by (simp add: read_loop.simps)
next
  case (2 st line c stream)
  obtain line' rest where f: "fgets line 256 (c # stream) = (line', rest)"
    by (cases "fgets line 256 (c # stream)")
  with "2.prems" obtain st1 stop where p: "process_line st line' = Inr (st1, stop)"
    and r: "(if stop then Inr st1 else read_loop st1 line' rest) = Inr st'"
    by (auto simp: read_loop.simps split: sum.splits)
  show ?case
  proof (cases stop)
    case True
    with r p show ?thesis by (auto dest: process_line_keeps)
  next
    case False
    with r have "read_loop st1 line' rest = Inr st'" by simp
    from "2.IH" [OF f [symmetric] p refl False this] process_line_keeps [OF p]
    show ?thesis by simp
  qed
qed

lemma read_input_keeps:
  assumes "read_input argv e = Inr st"
  shows "length (image_buf st) = 16400" and "crc_overlap st = False"
  using read_loop_keeps [OF assms [unfolded read_input_def]] by simp_all

section \<open>The CRC-14 pass\<close>

text \<open>
  After \<open>k\<close> rounds the loop is at byte offset \<open>0x400 + 2 * k\<close> with the
  fold of the first \<open>k\<close> words in the register; at \<open>k\<close> = 7551 the next
  offset is the boundary and the loop ends.
\<close>

lemma crc14_fold_0: "crc14_fold img 0 = 0"
  by (simp add: crc14_fold_def)

lemma crc14_fold_Suc:
  "crc14_fold img (Suc n) = calc_modified_crc14 (image_word img (0x400 + 2 * n)) (crc14_fold img n)"
  by (simp add: crc14_fold_def)

lemma unat_pass_address:
  "k \<le> 7551 \<Longrightarrow> unat (0x400 + 2 * of_nat k :: u32) = 0x400 + 2 * k"
  by (simp add: unat_word_ariths unat_of_nat)

lemma unat_pass_address1:
  "k \<le> 7551 \<Longrightarrow> unat (0x400 + 2 * of_nat k + 1 :: u32) = 0x400 + 2 * k + 1"
  by (simp add: unat_word_ariths unat_of_nat)

lemma pass_address_not_end:
  assumes "k < 7551"
  shows "push_bit 1 HIGH_ENDURANCE_ADDRESS \<noteq> (0x400 + 2 * of_nat k :: u32) + 2"
proof
  assume "push_bit 1 HIGH_ENDURANCE_ADDRESS = (0x400 + 2 * of_nat k :: u32) + 2"
  then have "unat (0x3F00 :: u32) = unat ((0x400 + 2 * of_nat (Suc k) :: u32))"
    by (simp add: HIGH_ENDURANCE_ADDRESS_def)
  with assms show False
    by (simp add: unat_word_ariths unat_of_nat)
qed

lemma crc14_loop_steps:
  "k \<le> 7551 \<Longrightarrow>
   crc14_loop (push_bit 1 CODE_OFFSET_ADDRESS) 0 st =
   crc14_loop (0x400 + 2 * of_nat k) (crc14_fold (image_buf st) k) st"
proof (induction k)
  case 0
  show ?case by (simp add: CODE_OFFSET_ADDRESS_def crc14_fold_0)
next
  case (Suc k)
  then have k: "k < 7551" "k \<le> 7551" by simp_all
  have "crc14_loop (0x400 + 2 * of_nat k) (crc14_fold (image_buf st) k) st =
        crc14_loop (0x400 + 2 * of_nat (Suc k)) (crc14_fold (image_buf st) (Suc k)) st"
    apply (subst crc14_loop.simps)
    using pass_address_not_end [OF k(1)] unat_pass_address [OF k(2)] unat_pass_address1 [OF k(2)]
    apply (simp add: crc14_fold_Suc image_word_def add.commute add.left_commute)
    done
  with Suc.IH k show ?case by simp
qed

lemma crc14_pass_result:
  "crc14_pass st =
     Some (st\<lparr>crc_overlap := (0xFF \<noteq> image_buf st ! 0x3EFE \<or> 0x3F \<noteq> image_buf st ! 0x3EFF),
               image_buf := (image_buf st)
                 [0x3EFE := ucast (crc14_fold (image_buf st) 7551 AND 0x00FF),
                  0x3EFF := ucast (drop_bit 8 (crc14_fold (image_buf st) 7551 AND 0xFF00))]\<rparr>)"
proof -
  have "crc14_pass st = crc14_loop 0x3EFE (crc14_fold (image_buf st) 7551) st"
    unfolding crc14_pass_def using crc14_loop_steps [of 7551 st] by simp
  also have "\<dots> = Some (st\<lparr>crc_overlap := (0xFF \<noteq> image_buf st ! 0x3EFE \<or> 0x3F \<noteq> image_buf st ! 0x3EFF),
               image_buf := (image_buf st)
                 [0x3EFE := ucast (crc14_fold (image_buf st) 7551 AND 0x00FF),
                  0x3EFF := ucast (drop_bit 8 (crc14_fold (image_buf st) 7551 AND 0xFF00))]\<rparr>)"
    by (subst crc14_loop.simps) (simp add: HIGH_ENDURANCE_ADDRESS_def)
  finally show ?thesis .
qed

text \<open>The register stays below \<open>2 ^ 14\<close>, and its two bytes give it back.\<close>

lemma less_14_iff: "(w :: u32) < 0x4000 \<longleftrightarrow> take_bit 14 w = w"
proof -
  have "(w < 2 ^ 14) = (w AND mask 14 = w)"
    by (rule mask_eq_iff_w2p [symmetric]) (simp add: word_size)
  then show ?thesis by (simp add: take_bit_eq_mask)
qed

lemma crc14_round_less: 
  assumes "crc < 0x4000" shows "crc14_round data crc < 0x4000"
proof -
  from assms have c: "take_bit 14 crc = crc" by (simp add: less_14_iff)
  have p: "take_bit 14 (0x23B1 :: u32) = 0x23B1" by simp
  have d: "take_bit 14 (drop_bit 1 crc) = drop_bit 1 crc"
  proof (rule bit_word_eqI)
    fix n assume "n < LENGTH(32)"
    have "bit crc (Suc n) \<Longrightarrow> n < 14"
      by (subst (asm) c [symmetric]) (simp add: bit_take_bit_iff)
    then show "bit (take_bit 14 (drop_bit 1 crc)) n = bit (drop_bit 1 crc) n"
      by (auto simp: bit_take_bit_iff bit_drop_bit_eq)
  qed
  have "take_bit 14 (drop_bit 1 crc XOR 0x23B1) = drop_bit 1 crc XOR 0x23B1"
    by (simp only: take_bit_xor p d)
  with d show ?thesis
    by (simp add: crc14_round_def less_14_iff)
qed

lemma crc14_rounds_less: "crc < 0x4000 \<Longrightarrow> crc14_rounds n data crc < 0x4000"
  by (induction n arbitrary: data crc) (simp_all add: crc14_round_less)

lemma calc_modified_crc14_less: "crc < 0x4000 \<Longrightarrow> calc_modified_crc14 data crc < 0x4000"
  by (simp add: calc_modified_crc14_def crc14_rounds_less)

lemma crc14_fold_less: "crc14_fold img n < 0x4000"
  by (induction n) (simp_all add: crc14_fold_0 crc14_fold_Suc calc_modified_crc14_less)

lemma le_word_bytes:
  fixes c :: u32
  assumes "c < 0x4000"
  shows "(ucast (ucast (c AND 0x00FF) :: u8) :: u32)
          + push_bit 8 (ucast (ucast (drop_bit 8 (c AND 0xFF00)) :: u8)) = c"
proof -
  let ?lo = "ucast (ucast (c AND 0x00FF) :: u8) :: u32"
  let ?hi = "push_bit 8 (ucast (ucast (drop_bit 8 (c AND 0xFF00)) :: u8)) :: u32"
  from assms have c: "take_bit 14 c = c" by (simp add: less_14_iff)
  have m1: "(0xFF :: u32) = mask 8" by (simp add: mask_eq_exp_minus_1)
  have m2: "(0xFF00 :: u32) = push_bit 8 (mask 8)" by (simp add: mask_eq_exp_minus_1 push_bit_eq_mult)
  have hi_bit: "bit c n \<Longrightarrow> n < 14" for n
    by (subst (asm) c [symmetric]) (simp add: bit_take_bit_iff)
  have lo: "bit ?lo n \<longleftrightarrow> n < 8 \<and> bit c n" for n
    unfolding m1 by (auto simp: bit_simps)
  have hi: "bit ?hi n \<longleftrightarrow> 8 \<le> n \<and> bit c n" for n
    unfolding m2 using hi_bit [of n] by (auto simp: bit_simps)
  have "?lo + ?hi = ?lo OR ?hi"
    by (rule disjunctive_add) (simp only: lo hi, auto)
  also have "\<dots> = c"
    by (rule bit_word_eqI) (auto simp only: bit_or_iff lo hi)
  finally show ?thesis .
qed

lemma high_byte_clear:
  fixes c :: u32
  assumes "c < 0x4000"
  shows "(ucast (drop_bit 8 (c AND 0xFF00)) :: u8) AND 0xC0 = 0"
proof -
  from assms have c: "take_bit 14 c = c" by (simp add: less_14_iff)
  have m2: "(0xFF00 :: u32) = push_bit 8 (mask 8)" by (simp add: mask_eq_exp_minus_1 push_bit_eq_mult)
  have m3: "(0xC0 :: u8) = push_bit 6 (mask 2)" by (simp add: mask_eq_exp_minus_1 push_bit_eq_mult)
  have hi_bit: "bit c n \<Longrightarrow> n < 14" for n
    by (subst (asm) c [symmetric]) (simp add: bit_take_bit_iff)
  show ?thesis
    unfolding m2 m3
    by (rule bit_word_eqI) (auto simp: bit_simps dest!: hi_bit)
qed

text \<open>The loop of \<open>calc_modified_crc14\<close> against the step of the specification.\<close>

lemma crc14_rounds_spec:
  "crc14_rounds n data crc = snd ((spec_crc14_iteration ^^ n) (data, crc))"
proof (induction n arbitrary: data crc)
  case 0
  show ?case by simp
next
  case (Suc n)
  have "spec_crc14_iteration (data, crc) = (drop_bit 1 data, crc14_round data crc)"
    by (simp add: spec_crc14_iteration_def crc14_round_def Let_def)
  then show ?case
    by (simp add: Suc.IH funpow_swap1)
qed

lemma image_word_spec: "image_word img a = spec_le_word (img ! a) (img ! (a + 1))"
proof -
  have "push_bit 8 (ucast (img ! (a + 1)) :: u32) = of_nat (256 * unat (img ! (a + 1)))"
    by (simp add: push_bit_eq_mult)
  then show ?thesis
    by (simp add: image_word_def spec_le_word_def)
qed

text \<open>
  C4.  \<open>calc_modified_crc14\<close> is sixteen iterations of the step of the
  specification, for every \<open>data\<close> and every register \<open>crc\<close>; and the pass
  feeds it the little-endian words of the image, low byte at the even offset
  \<open>0x400 + 2 * k\<close> and high byte behind it: the checksum it stores is the fold of the
  specification's step over these words.
\<close>

theorem calc_modified_crc14_iterations:
  "calc_modified_crc14 data crc = snd ((spec_crc14_iteration ^^ 16) (data, crc)) \<and>
   map_option image_buf (crc14_pass st) =
     Some ((image_buf st)
       [0x3EFE := ucast (foldl (\<lambda>crc k. spec_crc14
                     (spec_le_word (image_buf st ! (0x400 + 2 * k)) (image_buf st ! (0x400 + 2 * k + 1)))
                     crc) 0 [0..<7551] AND 0x00FF),
        0x3EFF := ucast (drop_bit 8 (foldl (\<lambda>crc k. spec_crc14
                     (spec_le_word (image_buf st ! (0x400 + 2 * k)) (image_buf st ! (0x400 + 2 * k + 1)))
                     crc) 0 [0..<7551] AND 0xFF00))])"
proof -
  have 1: "calc_modified_crc14 d c = spec_crc14 d c" for d c
    by (simp add: calc_modified_crc14_def spec_crc14_def crc14_rounds_spec)
  have 2: "crc14_fold (image_buf st) 7551 =
        foldl (\<lambda>crc k. spec_crc14
           (spec_le_word (image_buf st ! (0x400 + 2 * k)) (image_buf st ! (0x400 + 2 * k + 1)))
           crc) 0 [0..<7551]"
    unfolding crc14_fold_def 1 image_word_spec by (simp add: add.assoc)
  have 3: "map_option image_buf (crc14_pass st) =
     Some ((image_buf st)
       [0x3EFE := ucast (crc14_fold (image_buf st) 7551 AND 0x00FF),
        0x3EFF := ucast (drop_bit 8 (crc14_fold (image_buf st) 7551 AND 0xFF00))])"
    by (subst crc14_pass_result) simp
  have a: "calc_modified_crc14 data crc = snd ((spec_crc14_iteration ^^ 16) (data, crc))"
    using 1 [of data crc] unfolding spec_crc14_def .
  from 3 have b: "map_option image_buf (crc14_pass st) =
     Some ((image_buf st)
       [0x3EFE := ucast (foldl (\<lambda>crc k. spec_crc14
                     (spec_le_word (image_buf st ! (0x400 + 2 * k)) (image_buf st ! (0x400 + 2 * k + 1)))
                     crc) 0 [0..<7551] AND 0x00FF),
        0x3EFF := ucast (drop_bit 8 (foldl (\<lambda>crc k. spec_crc14
                     (spec_le_word (image_buf st ! (0x400 + 2 * k)) (image_buf st ! (0x400 + 2 * k + 1)))
                     crc) 0 [0..<7551] AND 0xFF00))])"
    unfolding 2 .
  from a b show ?thesis by (rule conjI)
qed

theorem calc_modified_crc14_iterations_witness:
  "calc_modified_crc14 0x3FFF 0x0C2B = snd ((spec_crc14_iteration ^^ 16) (0x3FFF, 0x0C2B)) \<and>
   map_option image_buf (crc14_pass (initial (env_of []))) =
     Some ((image_buf (initial (env_of [])))
       [0x3EFE := ucast (foldl (\<lambda>crc k. spec_crc14
                     (spec_le_word (image_buf (initial (env_of [])) ! (0x400 + 2 * k))
                        (image_buf (initial (env_of [])) ! (0x400 + 2 * k + 1)))
                     crc) 0 [0..<7551] AND 0x00FF),
        0x3EFF := ucast (drop_bit 8 (foldl (\<lambda>crc k. spec_crc14
                     (spec_le_word (image_buf (initial (env_of [])) ! (0x400 + 2 * k))
                        (image_buf (initial (env_of [])) ! (0x400 + 2 * k + 1)))
                     crc) 0 [0..<7551] AND 0xFF00))])"
  by (rule calc_modified_crc14_iterations)

text \<open>
  C9.  A register below 0x4000 stays below 0x4000 under \<open>calc_modified_crc14\<close>,
  for every \<open>data\<close>.  The pass starts from 0, so the word it stores at byte offset
  0x3EFE of the image is below 0x4000: the two top bits of its high byte are clear.
\<close>

theorem crc14_register_14_bits:
  assumes "crc < 0x4000" and "0x3F00 \<le> length (image_buf st)"
  shows "calc_modified_crc14 data crc < 0x4000 \<and>
         (\<exists>st'. crc14_pass st = Some st' \<and>
                image_word (image_buf st') 0x3EFE < 0x4000 \<and>
                image_buf st' ! 0x3EFF AND 0xC0 = 0)"
proof -
  let ?c = "crc14_fold (image_buf st) 7551"
  let ?img = "(image_buf st)[0x3EFE := ucast (?c AND 0x00FF),
                             0x3EFF := ucast (drop_bit 8 (?c AND 0xFF00))]"
  have c: "?c < 0x4000" by (rule crc14_fold_less)
  from assms(2) have lo: "?img ! 0x3EFE = ucast (?c AND 0x00FF)"
    and hi: "?img ! 0x3EFF = ucast (drop_bit 8 (?c AND 0xFF00))"
    by simp_all
  have "image_word ?img 0x3EFE = ?c"
    unfolding image_word_def using lo hi le_word_bytes [OF c] by simp
  with c have w: "image_word ?img 0x3EFE < 0x4000" by simp
  have h: "?img ! 0x3EFF AND 0xC0 = 0"
    unfolding hi by (rule high_byte_clear [OF c])
  have "\<exists>st'. crc14_pass st = Some st' \<and>
                image_word (image_buf st') 0x3EFE < 0x4000 \<and>
                image_buf st' ! 0x3EFF AND 0xC0 = 0"
    by (subst crc14_pass_result) (use w h in simp)
  with calc_modified_crc14_less [OF assms(1)] show ?thesis by simp
qed

theorem crc14_register_14_bits_witness:
  "(0x3FFF :: u32) < 0x4000 \<and> 0x3F00 \<le> length (image_buf (initial (env_of []))) \<and>
   calc_modified_crc14 0xFFFF 0x3FFF < 0x4000 \<and>
   (\<exists>st'. crc14_pass (initial (env_of [])) = Some st' \<and>
          image_word (image_buf st') 0x3EFE < 0x4000 \<and>
          image_buf st' ! 0x3EFF AND 0xC0 = 0)"
proof -
  have h1: "(0x3FFF :: u32) < 0x4000" by simp
  have h2: "0x3F00 \<le> length (image_buf (initial (env_of [])))"
    by simp
  from crc14_register_14_bits [OF h1 h2, where data = "0xFFFF"] h1 h2 show ?thesis by blast
qed

text \<open>
  The value of the register over a window of erased words.  The round, and with it the fold
  of any number of words, is linear over XOR; \<open>crc14_jump\<close> uses this to reach 7551
  words in thirteen doublings, and it is run once.
\<close>

lemma crc14_round_bits:
  "crc14_round data crc =
     (if bit data 0 \<noteq> bit crc 0 then drop_bit 1 crc XOR 0x23B1 else drop_bit 1 crc)"
proof -
  have "(data AND 1) XOR (crc AND 1) \<noteq> 0 \<longleftrightarrow> bit data 0 \<noteq> bit crc 0"
    by (auto simp: and_one_eq bit_0 mod_2_eq_odd)
  then show ?thesis by (simp only: crc14_round_def)
qed

lemma crc14_round_xor:
  "crc14_round (d1 XOR d2) (c1 XOR c2) = crc14_round d1 c1 XOR crc14_round d2 c2"
  by (cases "bit d1 0"; cases "bit d2 0"; cases "bit c1 0"; cases "bit c2 0")
    (simp_all add: crc14_round_bits bit_xor_iff xor.commute xor.left_commute xor.assoc)

lemma crc14_rounds_xor:
  "crc14_rounds n (d1 XOR d2) (c1 XOR c2) = crc14_rounds n d1 c1 XOR crc14_rounds n d2 c2"
  by (induction n arbitrary: d1 d2 c1 c2) (simp_all add: crc14_round_xor)

lemma calc_modified_crc14_xor:
  "calc_modified_crc14 (d1 XOR d2) (c1 XOR c2) =
     calc_modified_crc14 d1 c1 XOR calc_modified_crc14 d2 c2"
  by (simp add: calc_modified_crc14_def crc14_rounds_xor)

lemma crc14_words_xor:
  "(calc_modified_crc14 w ^^ n) (c1 XOR c2) =
     (calc_modified_crc14 w ^^ n) c1 XOR (calc_modified_crc14 0 ^^ n) c2"
proof (induction n)
  case 0
  show ?case by simp
next
  case (Suc n)
  have "calc_modified_crc14 (w XOR 0)
          ((calc_modified_crc14 w ^^ n) c1 XOR (calc_modified_crc14 0 ^^ n) c2) =
        calc_modified_crc14 w ((calc_modified_crc14 w ^^ n) c1)
          XOR calc_modified_crc14 0 ((calc_modified_crc14 0 ^^ n) c2)"
    by (rule calc_modified_crc14_xor)
  with Suc show ?case by simp
qed

lemma crc14_words_less:
  "c < 0x4000 \<Longrightarrow> (calc_modified_crc14 w ^^ n) c < 0x4000"
  by (induction n) (simp_all add: calc_modified_crc14_less)

lemma push_take_Suc:
  "push_bit i (take_bit (Suc n) (v :: u32)) =
     (if bit v 0 then push_bit i 1 else 0) XOR push_bit (Suc i) (take_bit n (drop_bit 1 v))"
proof (rule bit_word_eqI)
  fix m assume m: "m < LENGTH(32)"
  let ?l = "push_bit i (take_bit (Suc n) v)"
  let ?a = "if bit v 0 then push_bit i 1 else (0 :: u32)"
  let ?b = "push_bit (Suc i) (take_bit n (drop_bit 1 v))"
  have l: "bit ?l m \<longleftrightarrow> i \<le> m \<and> m - i < Suc n \<and> bit v (m - i)"
    using m by (auto simp only: bit_push_bit_iff bit_take_bit_iff possible_bit_word)
  have a: "bit ?a m \<longleftrightarrow> bit v 0 \<and> m = i"
    using m by (auto simp only: bit_push_bit_iff bit_1_iff possible_bit_word bit_0_eq split: if_splits)
  have b: "bit ?b m \<longleftrightarrow> Suc i \<le> m \<and> m - Suc i < n \<and> bit v (Suc (m - Suc i))"
    using m by (auto simp only: bit_push_bit_iff bit_take_bit_iff bit_drop_bit_eq possible_bit_word
        add_Suc plus_1_eq_Suc add_0 One_nat_def o_apply)
  consider "m < i" | "m = i" | "i < m" by linarith
  then show "bit ?l m \<longleftrightarrow> bit (?a XOR ?b) m"
  proof cases
    case 1
    then show ?thesis unfolding bit_xor_iff l a b by simp
  next
    case 2
    then show ?thesis unfolding bit_xor_iff l a b by simp
  next
    case 3
    then have "m - i = Suc (m - Suc i)" by simp
    with 3 show ?thesis unfolding bit_xor_iff l a b by auto
  qed
qed


lemma apply_rows_linear:
  assumes lin: "\<And>a b. f (a XOR b) = f a XOR f b"
    and rows: "\<And>j. j < length rs \<Longrightarrow> rs ! j = f (push_bit (i + j) 1)"
  shows "apply_rows rs v = f (push_bit i (take_bit (length rs) v))"
  using rows
proof (induction rs arbitrary: i v)
  case Nil
  have "f 0 = f 0 XOR f 0" using lin [of 0 0] by simp
  then have "f 0 = 0" by simp
  then show ?case by simp
next
  case (Cons r rs)
  have r: "r = f (push_bit i 1)" using Cons.prems [of 0] by simp
  have "apply_rows rs (drop_bit 1 v) = f (push_bit (Suc i) (take_bit (length rs) (drop_bit 1 v)))"
  proof (rule Cons.IH)
    fix j assume "j < length rs"
    then show "rs ! j = f (push_bit (Suc i + j) 1)"
      using Cons.prems [of "Suc j"] by simp
  qed
  moreover have "f 0 = 0" using lin [of 0 0] by simp
  ultimately have "apply_rows (r # rs) v =
      f ((if bit v 0 then push_bit i 1 else 0)
          XOR push_bit (Suc i) (take_bit (length rs) (drop_bit 1 v)))"
    by (simp add: r lin del: push_bit_Suc)
  then show ?case
    by (simp only: push_take_Suc length_Cons)
qed

lemma apply_rows_14:
  assumes lin: "\<And>a b. f (a XOR b) = f a XOR f b"
    and len: "length rs = 14"
    and rows: "\<And>j. j < 14 \<Longrightarrow> rs ! j = f (push_bit j 1)"
    and v: "v < 0x4000"
  shows "apply_rows rs v = f v"
proof -
  have "apply_rows rs v = f (push_bit 0 (take_bit (length rs) v))"
    by (rule apply_rows_linear [OF lin]) (use len rows in simp)
  with v show ?thesis
    by (simp add: len less_14_iff)
qed


lemma single_bit_less: "j < 14 \<Longrightarrow> (push_bit j 1 :: u32) < 0x4000"
  unfolding less_14_iff by (rule bit_word_eqI) (auto simp: bit_simps)

lemma crc14_jump_correct:
  assumes "length rs = 14"
    and "\<And>j. j < 14 \<Longrightarrow> rs ! j = (calc_modified_crc14 0 ^^ k) (push_bit j 1)"
    and "s = (calc_modified_crc14 w ^^ k) 0"
    and "t = (calc_modified_crc14 w ^^ m) 0"
  shows "crc14_jump n rs s t = (calc_modified_crc14 w ^^ (m + n * k)) 0"
  using assms
proof (induction n rs s t arbitrary: k m rule: crc14_jump.induct)
  case (1 n rs s t)
  show ?case
  proof (cases "n = 0")
    case True
    with "1.prems"(4) show ?thesis by (subst crc14_jump.simps) simp
  next
    case False
    let ?L = "calc_modified_crc14 0 ^^ k" and ?W = "calc_modified_crc14 w ^^ k"
    have lin: "?L (a XOR b) = ?L a XOR ?L b" for a b
      by (rule crc14_words_xor)
    have app: "apply_rows rs v = ?L v" if "v < 0x4000" for v
      by (rule apply_rows_14 [OF lin "1.prems"(1,2) that])
    have step: "?W c = s XOR ?L c" for c
      using crc14_words_xor [where w = w and n = k and ?c1.0 = 0 and ?c2.0 = c] "1.prems"(3) by simp
    have s_less: "s < 0x4000" and t_less: "t < 0x4000"
      unfolding "1.prems"(3,4) by (rule crc14_words_less, simp)+
    have rs_less: "rs ! j < 0x4000" if "j < 14" for j
      unfolding "1.prems"(2) [OF that] by (rule crc14_words_less) (rule single_bit_less [OF that])
    let ?rs = "map (apply_rows rs) rs"
    let ?s = "s XOR apply_rows rs s"
    let ?t = "if odd n then s XOR apply_rows rs t else t"
    let ?m = "if odd n then m + k else m"
    have "crc14_jump (n div 2) ?rs ?s ?t = (calc_modified_crc14 w ^^ (?m + (n div 2) * (k + k))) 0"
    proof (rule "1.IH" [OF False])
      show "length ?rs = 14" using "1.prems"(1) by simp
      show "?rs ! j = (calc_modified_crc14 0 ^^ (k + k)) (push_bit j 1)" if "j < 14" for j
        using that "1.prems"(1,2) app [OF rs_less [OF that]] by (simp add: funpow_add)
      show "?s = (calc_modified_crc14 w ^^ (k + k)) 0"
        using app [OF s_less] step [of s] "1.prems"(3) by (simp add: funpow_add)
      show "?t = (calc_modified_crc14 w ^^ ?m) 0"
        using app [OF t_less] step [of t] "1.prems"(4) by (simp add: funpow_add add.commute)
    qed
    moreover have "?m + (n div 2) * (k + k) = m + n * k"
    proof (cases "odd n")
      case True
      then obtain h where "n = 2 * h + 1" by (auto elim: oddE)
      then show ?thesis by (simp add: algebra_simps)
    next
      case False
      then obtain h where "n = 2 * h" by (auto elim: evenE)
      then show ?thesis by (simp add: algebra_simps)
    qed
    ultimately show ?thesis
      using False by (subst crc14_jump.simps) simp
  qed
qed

lemma crc14_rounds_numeral:
  "crc14_rounds (numeral k) data crc =
     crc14_rounds (pred_numeral k) (drop_bit 1 data) (crc14_round data crc)"
  by (simp add: numeral_eq_Suc)

lemma single_word_rows:
  "[calc_modified_crc14 0 0x0001, calc_modified_crc14 0 0x0002, calc_modified_crc14 0 0x0004,
    calc_modified_crc14 0 0x0008, calc_modified_crc14 0 0x0010, calc_modified_crc14 0 0x0020,
    calc_modified_crc14 0 0x0040, calc_modified_crc14 0 0x0080, calc_modified_crc14 0 0x0100,
    calc_modified_crc14 0 0x0200, calc_modified_crc14 0 0x0400, calc_modified_crc14 0 0x0800,
    calc_modified_crc14 0 0x1000, calc_modified_crc14 0 0x2000] =
   [9748, 2891, 5782, 11564, 7483, 14966, 13199, 8317, 1945, 3890, 7780, 15560, 16115, 14981]"
  by (simp add: calc_modified_crc14_def crc14_rounds_numeral crc14_round_def)

lemma single_word_sentinel: "calc_modified_crc14 0x3FFF 0 = 3115"
  by (simp add: calc_modified_crc14_def crc14_rounds_numeral crc14_round_def)

lemma sentinel_jump:
  "crc14_jump 7551
     [9748, 2891, 5782, 11564, 7483, 14966, 13199, 8317, 1945, 3890, 7780, 15560, 16115, 14981]
     3115 0 = 0x0B86"
  by (simp add: crc14_jump.simps)

lemma sentinel_crc14: "(calc_modified_crc14 0x3FFF ^^ 7551) 0 = 0x0B86"
proof -
  let ?rs = "[calc_modified_crc14 0 0x0001, calc_modified_crc14 0 0x0002, calc_modified_crc14 0 0x0004,
    calc_modified_crc14 0 0x0008, calc_modified_crc14 0 0x0010, calc_modified_crc14 0 0x0020,
    calc_modified_crc14 0 0x0040, calc_modified_crc14 0 0x0080, calc_modified_crc14 0 0x0100,
    calc_modified_crc14 0 0x0200, calc_modified_crc14 0 0x0400, calc_modified_crc14 0 0x0800,
    calc_modified_crc14 0 0x1000, calc_modified_crc14 0 0x2000]"
  have rows: "?rs ! j = (calc_modified_crc14 0 ^^ 1) (push_bit j 1)" if "j < 14" for j
  proof -
    from that have "j = 0 \<or> j = 1 \<or> j = 2 \<or> j = 3 \<or> j = 4 \<or> j = 5 \<or> j = 6
      \<or> j = 7 \<or> j = 8 \<or> j = 9 \<or> j = 10 \<or> j = 11 \<or> j = 12 \<or> j = 13"
      by arith
    then show ?thesis by (elim disjE) simp_all
  qed
  have "crc14_jump 7551 ?rs (calc_modified_crc14 0x3FFF 0) 0 =
        (calc_modified_crc14 0x3FFF ^^ (0 + 7551 * 1)) 0"
    by (rule crc14_jump_correct [OF _ rows]) simp_all
  then show ?thesis
    by (simp only: single_word_rows single_word_sentinel sentinel_jump add_0 mult_1_right)
qed

lemma sentinel_word:
  "img ! a = 0xFF \<Longrightarrow> img ! Suc a = 0x3F \<Longrightarrow> image_word img a = 0x3FFF"
  by (simp add: image_word_def)

lemma crc14_fold_constant:
  "(\<And>k. k < n \<Longrightarrow> image_word img (0x400 + 2 * k) = w) \<Longrightarrow>
   crc14_fold img n = (calc_modified_crc14 w ^^ n) 0"
  by (induction n) (simp_all add: crc14_fold_0 crc14_fold_Suc)

lemma crc14_fold_cong:
  "(\<And>a. 0x400 \<le> a \<Longrightarrow> a < 0x400 + 2 * n \<Longrightarrow> img' ! a = img ! a) \<Longrightarrow>
   crc14_fold img' n = crc14_fold img n"
proof (induction n)
  case 0
  show ?case by (simp add: crc14_fold_0)
next
  case (Suc n)
  have "crc14_fold img' n = crc14_fold img n"
    by (rule Suc.IH) (simp add: Suc.prems)
  moreover have "image_word img' (0x400 + 2 * n) = image_word img (0x400 + 2 * n)"
    by (simp add: image_word_def Suc.prems)
  ultimately show ?case by (simp add: crc14_fold_Suc)
qed

lemma erased_fold:
  "n \<le> 7552 \<Longrightarrow> crc14_fold (image_buf (initial e)) n = (calc_modified_crc14 0x3FFF ^^ n) 0"
proof (rule crc14_fold_constant)
  fix k :: nat assume "n \<le> 7552" and "k < n"
  then have "image_buf (initial e) ! (0x400 + 2 * k) = 0xFF"
    and "image_buf (initial e) ! Suc (0x400 + 2 * k) = 0x3F"
    by (simp_all add: nth_initial)
  then show "image_word (image_buf (initial e)) (0x400 + 2 * k) = 0x3FFF"
    by (rule sentinel_word)
qed

lemma whole_window_sentinel: "(calc_modified_crc14 0x3FFF ^^ 7552) 0 = 0x05E8"
proof -
  have "(calc_modified_crc14 0x3FFF ^^ Suc 7551) 0 = calc_modified_crc14 0x3FFF 0x0B86"
    by (simp only: funpow.simps o_apply sentinel_crc14)
  also have "\<dots> = 0x05E8"
    by (simp add: calc_modified_crc14_def crc14_rounds_numeral crc14_round_def)
  finally show ?thesis by simp
qed

text \<open>
  C3, as the program has it.  The pass starts at byte offset 0x400 (twice the word address
  0x200) and folds the little-endian words at offsets 0x400, 0x402, ... one after the other
  until the next offset would be the boundary 0x3F00 (twice 0x1F80): these are the 7551
  words in the bytes 0x400 to 0x3EFD, and the register depends on no other byte.  The last
  word of the window, at 0x3EFE and 0x3EFF, is not folded: the register is stored there, low
  byte first.  When every byte of the window from 0x400 to 0x3EFF holds the erased pattern,
  the register is the fixed value 0x0B86.
\<close>

theorem crc14_window:
  "push_bit 1 CODE_OFFSET_ADDRESS = (0x400 :: u32) \<and>
   push_bit 1 HIGH_ENDURANCE_ADDRESS = (0x3F00 :: u32) \<and>
   crc14_pass st =
     Some (st\<lparr>crc_overlap := (0xFF \<noteq> image_buf st ! 0x3EFE \<or> 0x3F \<noteq> image_buf st ! 0x3EFF),
               image_buf := (image_buf st)
                 [0x3EFE := ucast (crc14_fold (image_buf st) 7551 AND 0x00FF),
                  0x3EFF := ucast (drop_bit 8 (crc14_fold (image_buf st) 7551 AND 0xFF00))]\<rparr>) \<and>
   ((\<forall>a. 0x400 \<le> a \<and> a \<le> 0x3EFD \<longrightarrow> img ! a = image_buf st ! a) \<longrightarrow>
      crc14_fold img 7551 = crc14_fold (image_buf st) 7551) \<and>
   ((\<forall>a. 0x400 \<le> a \<and> a \<le> 0x3EFF \<longrightarrow> image_buf st ! a = (if even a then 0xFF else 0x3F)) \<longrightarrow>
      crc14_fold (image_buf st) 7551 = 0x0B86)"
proof -
  have 1: "crc14_fold (image_buf st) 7551 = 0x0B86"
    if s: "\<forall>a. 0x400 \<le> a \<and> a \<le> 0x3EFF \<longrightarrow> image_buf st ! a = (if even a then 0xFF else 0x3F)"
  proof -
    have "crc14_fold (image_buf st) 7551 = (calc_modified_crc14 0x3FFF ^^ 7551) 0"
    proof (rule crc14_fold_constant)
      fix k :: nat assume k: "k < 7551"
      from k s have "image_buf st ! (0x400 + 2 * k) = 0xFF" by simp
      moreover from k s have "image_buf st ! Suc (0x400 + 2 * k) = 0x3F" by simp
      ultimately show "image_word (image_buf st) (0x400 + 2 * k) = 0x3FFF"
        by (rule sentinel_word)
    qed
    then show ?thesis by (simp only: sentinel_crc14)
  qed
  have 2: "crc14_fold img 7551 = crc14_fold (image_buf st) 7551"
    if "\<forall>a. 0x400 \<le> a \<and> a \<le> 0x3EFD \<longrightarrow> img ! a = image_buf st ! a"
    by (rule crc14_fold_cong) (use that in simp)
  from 1 2 show ?thesis
    by (simp add: crc14_pass_result CODE_OFFSET_ADDRESS_def HIGH_ENDURANCE_ADDRESS_def)
qed

theorem crc14_window_witness:
  "crc14_fold (image_buf (initial (env_of []))) 7551 = 0x0B86 \<and>
   crc14_fold ((image_buf (initial (env_of [])))[0x3EFE := 0, 0x3EFF := 0]) 7551 =
     crc14_fold (image_buf (initial (env_of []))) 7551"
proof -
  have h1: "\<forall>a. 0x400 \<le> a \<and> a \<le> 0x3EFF \<longrightarrow>
        image_buf (initial (env_of [])) ! a = (if even a then 0xFF else 0x3F)"
    by (simp add: nth_initial)
  have h2: "\<forall>a. 0x400 \<le> a \<and> a \<le> 0x3EFD \<longrightarrow>
        (image_buf (initial (env_of [])))[0x3EFE := 0, 0x3EFF := 0] ! a
          = image_buf (initial (env_of [])) ! a"
    by simp
  from crc14_window [of "initial (env_of [])"
      "(image_buf (initial (env_of [])))[0x3EFE := 0, 0x3EFF := 0]"] h1 h2
  show ?thesis by blast
qed

text \<open>
  C3 as stated fails: the fold does not run through the whole window up to the boundary.
  On the erased image, folding all 7552 words of the bytes 0x400 to 0x3EFF gives 0x05E8,
  and the pass stores 0x0B86, the fold of the first 7551 of them.
\<close>

theorem crc14_last_word_not_folded:
  "crc14_fold (image_buf (initial (env_of []))) 7552 = 0x05E8 \<and>
   map_option image_buf (crc14_pass (initial (env_of []))) =
     Some ((image_buf (initial (env_of [])))[0x3EFE := 0x86, 0x3EFF := 0x0B])"
proof -
  have a: "crc14_fold (image_buf (initial (env_of []))) 7552 = 0x05E8"
    using erased_fold [of 7552 "env_of []"] by (simp only: whole_window_sentinel le_refl)
  have "crc14_fold (image_buf (initial (env_of []))) 7551 = 0x0B86"
    using erased_fold [of 7551 "env_of []"] by (simp add: sentinel_crc14)
  then have b: "map_option image_buf (crc14_pass (initial (env_of []))) =
     Some ((image_buf (initial (env_of [])))[0x3EFE := 0x86, 0x3EFF := 0x0B])"
    by (simp add: crc14_pass_result)
  from a b show ?thesis by (rule conjI)
qed

section \<open>The outcome of main\<close>

text \<open>
  What main leaves once the four checks at its start have passed and the read loop has
  returned, and the way back from a run that returns 0 without a diagnostic.
\<close>

lemma main_validation:
  assumes "3 \<le> length argv" and "malloc_ok e" and "files e (argv ! 1) \<noteq> None"
    and "can_write e (argv ! 2)" and "read_input argv e = Inr st"
  shows "main argv e = Some (Inr
     (if out_of_bounds st then
        \<lparr>exit_status = 0, stderr = [msg_out_of_bounds], files_after = opened argv e\<rparr>
      else if occupied (image_buf st) then
        \<lparr>exit_status = 0, stderr = [msg_crc_overlap], files_after = opened argv e\<rparr>
      else
        \<lparr>exit_status = 0, stderr = [],
         files_after = (opened argv e)(argv ! 2 \<mapsto> dfu_file (with_crc14 (image_buf st)))\<rparr>))"
  using assms by (simp add: main_def crc14_pass_result occupied_def with_crc14_def)

lemma main_success:
  assumes "main argv e = Some (Inr r)" and "exit_status r = 0" and "stderr r = []"
  obtains st where "read_input argv e = Inr st" and "\<not> out_of_bounds st"
    and "\<not> occupied (image_buf st)"
    and "files_after r = (opened argv e)(argv ! 2 \<mapsto> dfu_file (with_crc14 (image_buf st)))"
proof -
  from assms have s: "3 \<le> length argv" "malloc_ok e" "files e (argv ! 1) \<noteq> None" "can_write e (argv ! 2)"
    by (auto simp: main_def split: if_splits)
  with assms obtain st where st: "read_input argv e = Inr st"
    by (auto simp: main_def split: sum.splits)
  from main_validation [OF s st] assms that [OF st] show thesis
    by (auto split: if_splits)
qed

lemma msgs_differ: "msg_out_of_bounds \<noteq> msg_crc_overlap"
  by (simp add: msg_out_of_bounds_def msg_crc_overlap_def)

lemma opened_files: "opened argv e = (files e)(argv ! 2 \<mapsto> [])"
  by (simp add: opened_def)

section \<open>Data records\<close>

text \<open>
  C1.  Not every store of a data record lands inside the image.  The window test lets every
  address from 0x400 up to 0x7FFF through, and the block has 16400 bytes: on an input whose
  record holds one byte for address 0x4010 = 16400, with \<^verbatim>\<open>upper_address\<close>
  zero, main does not set \<^verbatim>\<open>out_of_bounds\<close> and ends in the store
  \<^verbatim>\<open>image[0x4010]\<close>, behind the end of the block.
\<close>

theorem high_record_overflows: "main argv0 (env_of high_record) = Some (Inl ImageOverflow)"
  by (simp add: run_simps high_record_def)




text \<open>
  A record whose bytes all go into the image, but whose digits do not fit the line buffer,
  ends in a read outside the buffer.
\<close>

lemma data_record_overread:
  assumes "length line < ptr + 2 * count" and "ptr \<le> length line"
    and "0x400 \<le> address"
    and "unat address + count \<le> length (image_buf st)"
    and "length (image_buf st) \<le> 0x8000"
  shows "data_record count address ptr line st = Inl LineOverread"
  using assms
proof (induction count arbitrary: address ptr st)
  case 0
  then show ?case by simp
next
  case (Suc count)
  from Suc.prems(4,5) have a: "unat address < 0x8000" "unat address < length (image_buf st)"
    by simp_all
  then have w: "\<not> (address < 0x400 \<or> address \<ge> 0x8000)"
    using Suc.prems(3) by (simp add: word_le_nat_alt word_less_nat_alt)
  from a have n: "unat (address + 1) = Suc (unat address)"
    by (simp add: unat_word_ariths)
  show ?case
  proof (cases "ptr + 2 \<le> length line")
    case True
    then obtain v where v: "readhex line ptr 2 = Inr v"
      using readhex_loop_inside [of ptr 2 line 0] by (auto simp: readhex_def)
    let ?st = "st\<lparr>image_buf := (image_buf st)[unat address := ucast v]\<rparr>"
    have "data_record count (address + 1) (ptr + 2) line ?st = Inl LineOverread"
    proof (rule Suc.IH)
      show "length line < ptr + 2 + 2 * count" using Suc.prems(1) by simp
      show "ptr + 2 \<le> length line" using True .
      show "0x400 \<le> address + 1"
        using Suc.prems(3) n by (simp add: word_le_nat_alt)
      show "unat (address + 1) + count \<le> length (image_buf ?st)"
        using Suc.prems(4) n by simp
      show "length (image_buf ?st) \<le> 0x8000" using Suc.prems(5) by simp
    qed
    with w v a show ?thesis by simp
  next
    case False
    then have "readhex line ptr 2 = Inl LineOverread"
      by (simp add: readhex_def readhex_loop_outside)
    with w show ?thesis by simp
  qed
qed

lemma long_record_split:
  "bytes_of long_record = (bytes_of '':7C040000'' @ replicate 246 0x30) @ (replicate 2 0x30 @ bytes_of ''80'' @ [0x0A])"
proof -
  have "replicate 248 (0x30::u8) = replicate 246 0x30 @ replicate 2 0x30"
    by (simp flip: replicate_add)
  then show ?thesis
    by (simp add: long_record_def bytes_of_def newline_def)
qed

lemma long_record_line:
  "fgets (uninitialised junk 256) 256 (bytes_of long_record) =
     (bytes_of '':7C040000'' @ replicate 246 0x30 @ [0], replicate 2 0x30 @ bytes_of ''80'' @ [0x0A])"
proof -
  let ?l = "bytes_of '':7C040000'' @ replicate 246 0x30"
  let ?r = "replicate 2 0x30 @ bytes_of ''80'' @ [0x0A]"
  have len: "length ?l = 255" by (simp add: bytes_of_def)
  have nl: "0x0A \<notin> set ?l" by (simp add: bytes_of_def)
  have "fgets_chars 255 (?l @ ?r) = (take 255 (?l @ ?r), drop 255 (?l @ ?r))"
    by (rule fgets_chars_no_newline) (use len nl in simp)
  with len have "fgets_chars 255 (?l @ ?r) = (?l, ?r)" by simp
  then show ?thesis
    unfolding long_record_split fgets_def using len by simp
qed

lemma long_record_process:
  assumes "length (image_buf st) = 16400" and "upper_address st = 0"
  shows "process_line st (bytes_of '':7C040000'' @ replicate 246 0x30 @ [0]) = Inl LineOverread"
proof -
  let ?line = "bytes_of '':7C040000'' @ replicate 246 0x30 @ [0]"
  have len: "length ?line = 256" by (simp add: bytes_of_def)
  have colon: "?line ! 0 = 0x3A" by (simp add: bytes_of_def)
  have count: "readhex ?line 1 2 = Inr 0x7C"
    by (simp add: bytes_of_def readhex_def readhex_loop_numeral hex_digit_def)
  have address: "readhex ?line 3 4 = Inr 0x400"
    by (simp add: bytes_of_def readhex_def readhex_loop_numeral hex_digit_def)
  have type: "record_type ?line ''00''"
    by (simp add: bytes_of_def record_type_def)
  have "data_record (unat (0x7C :: u32)) 0x400 9 ?line st = Inl LineOverread"
    by (rule data_record_overread) (use len assms in simp_all)
  with colon count address type assms(2) show ?thesis
    by (simp add: process_line_def)
qed

text \<open>
  C10.  Payload decoding does not stay inside the line buffer for every byte count.  The
  offsets 9 to 9 + 2 * count - 1 fit the 256 bytes only up to a count of 123: on an input
  whose record declares and holds 124 bytes for address 0x0400, \<^verbatim>\<open>fgets\<close>
  fills the buffer with the first 255 characters and main ends in the read of
  \<^verbatim>\<open>line[256]\<close>.
\<close>

theorem long_record_overreads: "main argv0 (env_of long_record) = Some (Inl LineOverread)"
proof -
  let ?e = "env_of long_record"
  have input: "the (opened argv0 ?e (argv0 ! 1)) = bytes_of long_record"
    by (simp add: opened_def argv0_def env_of_def)
  obtain c stream where cs: "bytes_of long_record = c # stream"
    by (simp add: long_record_def bytes_of_def)
  have "read_loop (initial ?e) (uninitialised (stack_junk ?e) 256) (c # stream) = Inl LineOverread"
    by (subst read_loop.simps) (simp add: long_record_line long_record_process flip: cs)
  then have "read_input argv0 ?e = Inl LineOverread"
    unfolding read_input_def input cs .
  then show ?thesis
    by (simp add: main_def argv0_def env_of_def)
qed

section \<open>Validation\<close>

text \<open>
  C2, as the program has it.  The output file is opened, and so created or truncated, before
  the input is read.  When validation fails, main prints one diagnostic, the one for the
  condition met, writes nothing, and returns 0: the output path then holds an empty file and
  every other file is as it was.
\<close>

theorem validation_failure_outcome:
  assumes "3 \<le> length argv" and "malloc_ok e" and "files e (argv ! 1) \<noteq> None"
    and "can_write e (argv ! 2)" and "read_input argv e = Inr st"
    and "out_of_bounds st \<or> (\<exists>st'. crc14_pass st = Some st' \<and> crc_overlap st')"
  shows "\<exists>r. main argv e = Some (Inr r) \<and> exit_status r = 0 \<and>
           stderr r = [if out_of_bounds st then msg_out_of_bounds else msg_crc_overlap] \<and>
           msg_out_of_bounds \<noteq> msg_crc_overlap \<and>
           files_after r = (files e)(argv ! 2 \<mapsto> [])"
proof -
  from assms(6) have "out_of_bounds st \<or> occupied (image_buf st)"
    by (auto simp: crc14_pass_result occupied_def)
  with main_validation [OF assms(1-5)] msgs_differ show ?thesis
    by (auto simp: opened_files)
qed

lemma low_record_read:
  "read_input argv0 (env_of low_record) = Inr ((initial (env_of low_record))\<lparr>out_of_bounds := True\<rparr>)"
  by (simp add: run_simps low_record_def)

theorem validation_failure_outcome_witness:
  "3 \<le> length argv0 \<and> malloc_ok (env_of low_record) \<and>
   files (env_of low_record) (argv0 ! 1) \<noteq> None \<and> can_write (env_of low_record) (argv0 ! 2) \<and>
   read_input argv0 (env_of low_record) = Inr ((initial (env_of low_record))\<lparr>out_of_bounds := True\<rparr>) \<and>
   (\<exists>r. main argv0 (env_of low_record) = Some (Inr r) \<and> exit_status r = 0 \<and>
        stderr r = [msg_out_of_bounds] \<and>
        files_after r = (files (env_of low_record))(argv0 ! 2 \<mapsto> []))"
proof -
  let ?e = "env_of low_record"
  let ?st = "(initial ?e)\<lparr>out_of_bounds := True\<rparr>"
  have h: "3 \<le> length argv0" "malloc_ok ?e" "files ?e (argv0 ! 1) \<noteq> None" "can_write ?e (argv0 ! 2)"
    by (simp_all add: argv0_def env_of_def)
  have o: "out_of_bounds ?st \<or> (\<exists>st'. crc14_pass ?st = Some st' \<and> crc_overlap st')"
    by simp
  from validation_failure_outcome [OF h low_record_read o] h low_record_read
  show ?thesis by auto
qed

text \<open>
  C2 as stated fails: with an input whose only record addresses byte 0, and no file at the
  output path beforehand, the run ends with the diagnostic, the status 0, and an (empty)
  file at the output path.
\<close>

theorem validation_failure_creates_file:
  "files (env_of low_record) ''out.dfu'' = None \<and>
   main argv0 (env_of low_record) =
     Some (Inr \<lparr>exit_status = 0, stderr = [msg_out_of_bounds],
                files_after = opened argv0 (env_of low_record)\<rparr>) \<and>
   opened argv0 (env_of low_record) ''out.dfu'' = Some []"
proof -
  have "main argv0 (env_of low_record) =
     Some (Inr \<lparr>exit_status = 0, stderr = [msg_out_of_bounds],
                files_after = opened argv0 (env_of low_record)\<rparr>)"
    using low_record_read by (simp add: main_def argv0_def env_of_def)
  then show ?thesis
    by (simp add: env_of_def opened_def argv0_def)
qed

text \<open>
  C6.  When the pass is reached, \<^verbatim>\<open>crc_overlap\<close> is set exactly when the
  two bytes at the checksum location differ from (0xFF, 0x3F); then main prints the overlap
  diagnostic and writes nothing, and otherwise it writes the image.  The witness is an input
  whose data record puts two zero bytes there.
\<close>

theorem crc_overlap_detection:
  assumes "3 \<le> length argv" and "malloc_ok e" and "files e (argv ! 1) \<noteq> None"
    and "can_write e (argv ! 2)" and "read_input argv e = Inr st" and "\<not> out_of_bounds st"
  shows "\<exists>st'. crc14_pass st = Some st' \<and>
           (crc_overlap st' \<longleftrightarrow> (image_buf st ! 0x3EFE, image_buf st ! 0x3EFF) \<noteq> (0xFF, 0x3F)) \<and>
           main argv e = Some (Inr
             (if crc_overlap st'
              then \<lparr>exit_status = 0, stderr = [msg_crc_overlap],
                    files_after = (files e)(argv ! 2 \<mapsto> [])\<rparr>
              else \<lparr>exit_status = 0, stderr = [],
                    files_after = (files e)(argv ! 2 \<mapsto> dfu_file (image_buf st'))\<rparr>))"
  using main_validation [OF assms(1-5)] assms(6)
  by (auto simp: crc14_pass_result occupied_def with_crc14_def opened_files)

lemma seed_record_read:
  "read_input argv0 (env_of seed_record) =
     Inr ((initial (env_of seed_record))
            \<lparr>image_buf := (image_buf (initial (env_of seed_record)))[0x3EFE := 0, 0x3EFF := 0]\<rparr>)"
  by (simp add: run_simps seed_record_def)

theorem crc_overlap_detection_witness:
  "3 \<le> length argv0 \<and> malloc_ok (env_of seed_record) \<and>
   files (env_of seed_record) (argv0 ! 1) \<noteq> None \<and> can_write (env_of seed_record) (argv0 ! 2) \<and>
   read_input argv0 (env_of seed_record) =
     Inr ((initial (env_of seed_record))
            \<lparr>image_buf := (image_buf (initial (env_of seed_record)))[0x3EFE := 0, 0x3EFF := 0]\<rparr>) \<and>
   main argv0 (env_of seed_record) =
     Some (Inr \<lparr>exit_status = 0, stderr = [msg_crc_overlap],
                files_after = (files (env_of seed_record))(argv0 ! 2 \<mapsto> [])\<rparr>)"
proof -
  let ?e = "env_of seed_record"
  let ?st = "(initial ?e)\<lparr>image_buf := (image_buf (initial ?e))[0x3EFE := 0, 0x3EFF := 0]\<rparr>"
  have h: "3 \<le> length argv0" "malloc_ok ?e" "files ?e (argv0 ! 1) \<noteq> None" "can_write ?e (argv0 ! 2)"
    by (simp_all add: argv0_def env_of_def)
  have o: "\<not> out_of_bounds ?st" by simp
  have p: "(image_buf ?st ! 0x3EFE, image_buf ?st ! 0x3EFF) \<noteq> (0xFF, 0x3F)" by simp
  from crc_overlap_detection [OF h seed_record_read o] p h seed_record_read
  show ?thesis by auto
qed

section \<open>The CRC-32 and the suffix\<close>

text \<open>
  The bit step is linear over XOR, and eight of them shift a register whose low byte is
  zero by eight bits: eight bit steps on \<open>x\<close> are eight bit steps on its low byte,
  XOR \<open>x\<close> shifted.  The 256 entries of the table are eight bit steps on their
  index, by computation.
\<close>

lemma and_1_iff: "(w :: u32) AND 1 \<noteq> 0 \<longleftrightarrow> bit w 0"
  by (simp add: and_one_eq bit_0 odd_iff_mod_2_eq_one)

lemma spec_crc32_bit_xor:
  "spec_crc32_bit (a XOR b) = spec_crc32_bit a XOR spec_crc32_bit b"
proof -
  have "spec_crc32_bit w = (if bit w 0 then drop_bit 1 w XOR 0xEDB88320 else drop_bit 1 w)" for w
    by (simp add: spec_crc32_bit_def and_1_iff)
  then show ?thesis
    by (simp add: bit_xor_iff xor.commute xor.left_commute xor.assoc)
qed

lemma spec_crc32_bits_xor:
  "(spec_crc32_bit ^^ n) (a XOR b) = (spec_crc32_bit ^^ n) a XOR (spec_crc32_bit ^^ n) b"
  by (induction n arbitrary: a b) (simp_all add: funpow_swap1 spec_crc32_bit_xor)

lemma spec_crc32_bits_shift:
  "take_bit n a = 0 \<Longrightarrow> (spec_crc32_bit ^^ n) a = drop_bit n a"
proof (induction n arbitrary: a)
  case 0
  show ?case by simp
next
  case (Suc n)
  have z: "\<not> (m < Suc n \<and> bit a m)" for m
  proof -
    have "bit (take_bit (Suc n) a) m = bit (0 :: u32) m"
      by (simp only: Suc.prems)
    then show ?thesis by (simp add: bit_take_bit_iff)
  qed
  from z [of 0] have b: "\<not> bit a 0" by simp
  have t: "take_bit n (drop_bit 1 a) = 0"
    by (rule bit_word_eqI) (use z in \<open>auto simp: bit_simps\<close>)
  from b have "spec_crc32_bit a = drop_bit 1 a"
    by (simp add: spec_crc32_bit_def and_1_iff)
  with Suc.IH [OF t] show ?case
    by (simp add: funpow_swap1)
qed

lemma spec_crc32_bits_low:
  "(spec_crc32_bit ^^ 8) x = (spec_crc32_bit ^^ 8) (x AND 0xFF) XOR drop_bit 8 x"
proof -
  have m: "(0xFF :: u32) = mask 8" by (simp add: mask_eq_exp_minus_1)
  have x: "x = (x AND mask 8) XOR (x AND NOT (mask 8))"
    by (rule bit_word_eqI) (auto simp: bit_simps)
  have t: "take_bit 8 (x AND NOT (mask 8)) = 0"
    by (rule bit_word_eqI) (auto simp: bit_simps)
  have d: "drop_bit 8 (x AND NOT (mask 8)) = drop_bit 8 x"
    by (rule bit_word_eqI) (auto simp: bit_simps dest: bit_imp_le_length)
  have "(spec_crc32_bit ^^ 8) x =
        (spec_crc32_bit ^^ 8) (x AND mask 8) XOR (spec_crc32_bit ^^ 8) (x AND NOT (mask 8))"
    by (subst x) (rule spec_crc32_bits_xor)
  also have "(spec_crc32_bit ^^ 8) (x AND NOT (mask 8)) = drop_bit 8 x"
    using spec_crc32_bits_shift [OF t] d by simp
  finally show ?thesis by (simp add: m)
qed

lemma crc32_bits_numeral:
  "crc32_bits (numeral k) crc = crc32_bits (pred_numeral k) (spec_crc32_bit crc)"
  by (simp add: numeral_eq_Suc)

lemma table_from_numeral:
  "table_from (numeral k) x = crc32_bits 8 x # table_from (pred_numeral k) (x + 1)"
  by (simp add: numeral_eq_Suc)

lemma table_from_256: "table_from 256 0 = crc32_table"
  by (simp add: crc32_table_def table_from_numeral crc32_bits_numeral spec_crc32_bit_def)

lemma crc32_bits_funpow: "crc32_bits n crc = (spec_crc32_bit ^^ n) crc"
  by (induction n arbitrary: crc) (simp_all add: funpow_swap1)

lemma table_from_nth: "i < n \<Longrightarrow> table_from n x ! i = crc32_bits 8 (x + of_nat i)"
proof (induction n arbitrary: x i)
  case 0
  then show ?case by simp
next
  case (Suc n)
  show ?case
  proof (cases i)
    case 0
    then show ?thesis by simp
  next
    case (Suc j)
    with Suc.prems Suc.IH [of j "x + 1"] show ?thesis by (simp add: add.assoc)
  qed
qed

lemma crc32_table_nth:
  "i < 256 \<Longrightarrow> crc32_table ! i = (spec_crc32_bit ^^ 8) (of_nat i)"
  using table_from_nth [of i 256 0] by (simp add: table_from_256 crc32_bits_funpow)

lemma table_step_bitwise: "table_step crc b = spec_crc32_byte crc b"
proof -
  let ?x = "crc XOR ucast b"
  have m: "(0xFF :: u32) = mask 8" by (simp add: mask_eq_exp_minus_1)
  have "unat (?x AND mask 8) = take_bit 8 (unat ?x)"
    by (simp only: unsigned_take_bit_eq flip: take_bit_eq_mask)
  also have "\<dots> < 2 ^ 8" by (rule take_bit_nat_less_exp)
  finally have "unat (?x AND 0xFF) < 256" by (simp add: m)
  then have t: "crc32_table ! unat (?x AND 0xFF) = (spec_crc32_bit ^^ 8) (?x AND 0xFF)"
    by (simp add: crc32_table_nth)
  have d: "drop_bit 8 ?x = drop_bit 8 crc"
    by (rule bit_word_eqI) (auto simp: bit_simps dest: bit_imp_le_length)
  show ?thesis
    unfolding table_step_def spec_crc32_byte_def t
    by (subst (2) spec_crc32_bits_low) (simp only: d)
qed

lemma crc32_calc_foldl:
  "n \<le> length buffer \<Longrightarrow> crc32_calc crc buffer n = foldl table_step crc (take n buffer)"
proof (induction crc buffer n rule: crc32_calc.induct)
  case (1 crc buffer)
  show ?case by simp
next
  case (2 crc n)
  then show ?case by simp
next
  case (3 crc b buffer n)
  then show ?case by (simp add: table_step_def)
qed

text \<open>The bytes of the suffix and of the file.\<close>

lemma byte_of_word:
  "(ucast (drop_bit n (w :: u32)) :: u8) = of_nat (unat w div 2 ^ n mod 256)"
proof -
  have "(ucast (drop_bit n w) :: u8) = of_nat (unat (drop_bit n w))"
    by (simp only: of_nat_unat)
  also have "unat (drop_bit n w) = unat w div 2 ^ n"
    by (simp only: unat_drop_bit_eq) (simp only: drop_bit_eq_div)
  also have "(of_nat (unat w div 2 ^ n) :: u8) = of_nat (unat w div 2 ^ n mod 256)"
    by (simp add: word_of_nat_eq_iff take_bit_eq_mod)
  finally show ?thesis .
qed

lemma masked_byte:
  "(ucast (drop_bit 0 (crc AND 0x000000FF)) :: u8) = ucast (drop_bit 0 (crc :: u32))"
  "(ucast (drop_bit 8 (crc AND 0x0000FF00)) :: u8) = ucast (drop_bit 8 crc)"
  "(ucast (drop_bit 16 (crc AND 0x00FF0000)) :: u8) = ucast (drop_bit 16 crc)"
  "(ucast (drop_bit 24 (crc AND 0xFF000000)) :: u8) = ucast (drop_bit 24 crc)"
proof -
  have m: "(0xFF :: u32) = push_bit 0 (mask 8)" "(0xFF00 :: u32) = push_bit 8 (mask 8)"
    "(0xFF0000 :: u32) = push_bit 16 (mask 8)" "(0xFF000000 :: u32) = push_bit 24 (mask 8)"
    by (simp_all add: mask_eq_exp_minus_1 push_bit_eq_mult)
  have g: "(ucast (drop_bit k (crc AND push_bit k (mask 8))) :: u8) = ucast (drop_bit k crc)" for k
    by (rule bit_word_eqI) (auto simp: bit_simps dest: bit_imp_le_length)
  show "(ucast (drop_bit 0 (crc AND 0x000000FF)) :: u8) = ucast (drop_bit 0 (crc :: u32))"
    "(ucast (drop_bit 8 (crc AND 0x0000FF00)) :: u8) = ucast (drop_bit 8 crc)"
    "(ucast (drop_bit 16 (crc AND 0x00FF0000)) :: u8) = ucast (drop_bit 16 crc)"
    "(ucast (drop_bit 24 (crc AND 0xFF000000)) :: u8) = ucast (drop_bit 24 crc)"
    unfolding m by (rule g)+
qed

lemma put_crc32_spec:
  assumes "length pm = 16384" and "length fs = 12" and "length rest = 4"
  shows "put_crc32 crc (pm @ fs @ rest) = pm @ fs @ spec_le_bytes32 crc"
proof -
  from assms(3) obtain a b c d where rest: "rest = [a, b, c, d]"
    by (auto simp: numeral_eq_Suc length_Suc_conv)
  have b: "spec_le_bytes32 crc =
     [ucast (drop_bit 0 crc), ucast (drop_bit 8 crc), ucast (drop_bit 16 crc), ucast (drop_bit 24 crc)]"
    unfolding byte_of_word spec_le_bytes32_def by simp
  show ?thesis
    unfolding put_crc32_def masked_byte b rest
    using assms(1,2) by (simp add: list_update_append)
qed

lemma put_suffix_fields:
  assumes "length pm = 16384" and "length sfx = 16"
  shows "put_suffix (pm @ sfx) = pm @ suffix_fields @ drop 12 sfx"
proof -
  from assms(2) obtain s0 s1 s2 s3 s4 s5 s6 s7 s8 s9 s10 s11 rest
    where sfx: "sfx = [s0, s1, s2, s3, s4, s5, s6, s7, s8, s9, s10, s11] @ rest"
    by (auto simp: numeral_eq_Suc length_Suc_conv)
  show ?thesis
    unfolding put_suffix_def sfx using assms(1)
    by (simp add: list_update_append suffix_fields_def USB_PRODUCT_ID_def USB_VENDOR_ID_def)
qed

lemma dfu_file_layout:
  assumes "length img = 16400"
  shows "dfu_file img = take 16384 img @ suffix_fields
           @ spec_le_bytes32 (spec_crc32_register (take 16384 img @ suffix_fields))"
proof -
  let ?pm = "take 16384 img" and ?sfx = "drop 16384 img"
  have img: "img = ?pm @ ?sfx" by simp
  from assms have pm: "length ?pm = 16384" and sfx: "length ?sfx = 16" by simp_all
  have f: "length suffix_fields = 12" by (simp add: suffix_fields_def)
  have s: "put_suffix img = ?pm @ suffix_fields @ drop 12 ?sfx"
    by (subst img) (rule put_suffix_fields [OF pm sfx])
  have t: "table_step = spec_crc32_byte"
    by (intro ext) (rule table_step_bitwise)
  have "crc32_calc 0xFFFFFFFF (put_suffix img) (PM_SIZE_IN_BYTES + 12) =
        foldl table_step 0xFFFFFFFF (take (PM_SIZE_IN_BYTES + 12) (put_suffix img))"
    by (rule crc32_calc_foldl) (use assms in \<open>simp add: s suffix_fields_def\<close>)
  also have "take (PM_SIZE_IN_BYTES + 12) (put_suffix img) = ?pm @ suffix_fields"
    unfolding s using pm f by simp
  finally have c: "crc32_calc 0xFFFFFFFF (put_suffix img) (PM_SIZE_IN_BYTES + 12) =
        spec_crc32_register (?pm @ suffix_fields)"
    by (simp add: t spec_crc32_register_def)
  have p: "put_crc32 (spec_crc32_register (?pm @ suffix_fields)) (?pm @ suffix_fields @ drop 12 ?sfx)
        = ?pm @ suffix_fields @ spec_le_bytes32 (spec_crc32_register (?pm @ suffix_fields))"
    by (rule put_crc32_spec [OF pm f]) (use sfx in simp)
  have "dfu_file img = take (PM_SIZE_IN_BYTES + 16)
          (put_crc32 (spec_crc32_register (?pm @ suffix_fields)) (put_suffix img))"
    unfolding dfu_file_def c ..
  also have "\<dots> = take (PM_SIZE_IN_BYTES + 16)
          (?pm @ suffix_fields @ spec_le_bytes32 (spec_crc32_register (?pm @ suffix_fields)))"
    unfolding s p ..
  also have "\<dots> = ?pm @ suffix_fields @ spec_le_bytes32 (spec_crc32_register (?pm @ suffix_fields))"
    using pm f by (simp add: spec_le_bytes32_def)
  finally show ?thesis .
qed

lemma length_with_crc14 [simp]: "length (with_crc14 img) = length img"
  by (simp add: with_crc14_def)

lemma main_success_file:
  assumes "main argv e = Some (Inr r)" and "exit_status r = 0" and "stderr r = []"
  obtains img where "length img = 16400" and "files_after r (argv ! 2) = Some (dfu_file img)"
proof -
  from assms obtain st where st: "read_input argv e = Inr st"
    and f: "files_after r = (opened argv e)(argv ! 2 \<mapsto> dfu_file (with_crc14 (image_buf st)))"
    by (rule main_success)
  from read_input_keeps(1) [OF st] have "length (with_crc14 (image_buf st)) = 16400" by simp
  moreover from f have "files_after r (argv ! 2) = Some (dfu_file (with_crc14 (image_buf st)))"
    by simp
  ultimately show thesis by (rule that)
qed

lemma empty_input_read: "read_input argv0 (env_of []) = Inr (initial (env_of []))"
  by (simp add: read_input_def opened_def argv0_def env_of_def bytes_of_def read_loop.simps)

lemma empty_input_main: "main argv0 (env_of []) = Some (Inr empty_input_outcome)"
proof -
  have h: "3 \<le> length argv0" "malloc_ok (env_of [])" "files (env_of []) (argv0 ! 1) \<noteq> None"
    "can_write (env_of []) (argv0 ! 2)"
    by (simp_all add: argv0_def env_of_def)
  have "\<not> occupied (image_buf (initial (env_of [])))"
    by (simp add: occupied_def nth_initial)
  with main_validation [OF h empty_input_read] show ?thesis
    by (simp add: empty_input_outcome_def)
qed

text \<open>
  C5.  After a successful run the last four bytes of the output are the little-endian bytes
  of the register that \<open>crc32_calc\<close> computes from 0xFFFFFFFF over the first 16396
  bytes of the output, which are the 16384 bytes of program memory and the first twelve
  bytes of the suffix.  That register is the fold of the table-driven step, and equals the
  bitwise computation with the reflected polynomial; nothing is applied to it at the end.
\<close>

theorem crc32_suffix:
  assumes "main argv e = Some (Inr r)" and "exit_status r = 0" and "stderr r = []"
  shows "\<exists>out. files_after r (argv ! 2) = Some out \<and> length out = 16400 \<and>
     drop 16396 out = spec_le_bytes32 (crc32_calc 0xFFFFFFFF out 16396) \<and>
     crc32_calc 0xFFFFFFFF out 16396 =
       foldl table_step 0xFFFFFFFF (take 16384 out @ take 12 (drop 16384 out)) \<and>
     crc32_calc 0xFFFFFFFF out 16396 =
       spec_crc32_register (take 16384 out @ take 12 (drop 16384 out))"
proof -
  from assms obtain img where img: "length img = 16400"
    and out: "files_after r (argv ! 2) = Some (dfu_file img)"
    by (rule main_success_file)
  let ?pm = "take 16384 img"
  let ?crc = "spec_crc32_register (?pm @ suffix_fields)"
  let ?out = "dfu_file img"
  have l: "?out = ?pm @ suffix_fields @ spec_le_bytes32 ?crc"
    by (rule dfu_file_layout [OF img])
  from img have pm: "length ?pm = 16384" by simp
  have f: "length suffix_fields = 12" by (simp add: suffix_fields_def)
  have len: "length ?out = 16400"
    unfolding l using pm f by (simp add: spec_le_bytes32_def)
  have t: "table_step = spec_crc32_byte"
    by (intro ext) (rule table_step_bitwise)
  have head: "take 16384 ?out @ take 12 (drop 16384 ?out) = ?pm @ suffix_fields"
    unfolding l using pm f by simp
  have "take 16396 ?out = ?pm @ suffix_fields"
    unfolding l using pm f by simp
  then have c: "crc32_calc 0xFFFFFFFF ?out 16396 = ?crc"
    using crc32_calc_foldl [where n = 16396 and buffer = "?out" and crc = "0xFFFFFFFF"] len
    by (simp add: t spec_crc32_register_def)
  have tail: "drop 16396 ?out = spec_le_bytes32 ?crc"
    unfolding l using pm f by simp
  have c1: "crc32_calc 0xFFFFFFFF ?out 16396 =
       foldl table_step 0xFFFFFFFF (take 16384 ?out @ take 12 (drop 16384 ?out))"
    unfolding head c t spec_crc32_register_def ..
  have c2: "crc32_calc 0xFFFFFFFF ?out 16396 =
       spec_crc32_register (take 16384 ?out @ take 12 (drop 16384 ?out))"
    unfolding head c ..
  have c3: "drop 16396 ?out = spec_le_bytes32 (crc32_calc 0xFFFFFFFF ?out 16396)"
    unfolding c tail ..
  from out len c3 c1 c2 show ?thesis by blast
qed

theorem crc32_suffix_witness:
  "main argv0 (env_of []) = Some (Inr empty_input_outcome) \<and>
   exit_status empty_input_outcome = 0 \<and> stderr empty_input_outcome = [] \<and>
   (\<exists>out. files_after empty_input_outcome (argv0 ! 2) = Some out \<and> length out = 16400 \<and>
     drop 16396 out = spec_le_bytes32 (crc32_calc 0xFFFFFFFF out 16396) \<and>
     crc32_calc 0xFFFFFFFF out 16396 =
       foldl table_step 0xFFFFFFFF (take 16384 out @ take 12 (drop 16384 out)) \<and>
     crc32_calc 0xFFFFFFFF out 16396 =
       spec_crc32_register (take 16384 out @ take 12 (drop 16384 out)))"
proof -
  have h: "exit_status empty_input_outcome = 0" "stderr empty_input_outcome = []"
    by (simp_all add: empty_input_outcome_def)
  from crc32_suffix [OF empty_input_main h] empty_input_main h show ?thesis by blast
qed

text \<open>
  C7.  After a successful run the output has 16400 bytes, and the bytes at offsets 16384 to
  16395 are 0xFF 0xFF, 0x01 0x00, 0x34 0x12, 0x00 0x01, U F D, and 0x10.
\<close>

theorem dfu_output_layout:
  assumes "main argv e = Some (Inr r)" and "exit_status r = 0" and "stderr r = []"
  shows "\<exists>out. files_after r (argv ! 2) = Some out \<and> length out = 16400 \<and>
     take 12 (drop 16384 out) =
       [0xFF, 0xFF, 0x01, 0x00, 0x34, 0x12, 0x00, 0x01,
        of_char CHR ''U'', of_char CHR ''F'', of_char CHR ''D'', 0x10]"
proof -
  from assms obtain img where img: "length img = 16400"
    and out: "files_after r (argv ! 2) = Some (dfu_file img)"
    by (rule main_success_file)
  let ?pm = "take 16384 img"
  have l: "dfu_file img = ?pm @ suffix_fields
             @ spec_le_bytes32 (spec_crc32_register (?pm @ suffix_fields))"
    by (rule dfu_file_layout [OF img])
  from img have pm: "length ?pm = 16384" by simp
  have "length (dfu_file img) = 16400"
    unfolding l using pm by (simp add: spec_le_bytes32_def suffix_fields_def)
  moreover have "take 12 (drop 16384 (dfu_file img)) = suffix_fields"
    unfolding l using pm by (simp add: suffix_fields_def)
  ultimately show ?thesis
    using out by (simp add: suffix_fields_def)
qed

theorem dfu_output_layout_witness:
  "main argv0 (env_of []) = Some (Inr empty_input_outcome) \<and>
   exit_status empty_input_outcome = 0 \<and> stderr empty_input_outcome = [] \<and>
   (\<exists>out. files_after empty_input_outcome (argv0 ! 2) = Some out \<and> length out = 16400 \<and>
     take 12 (drop 16384 out) =
       [0xFF, 0xFF, 0x01, 0x00, 0x34, 0x12, 0x00, 0x01,
        of_char CHR ''U'', of_char CHR ''F'', of_char CHR ''D'', 0x10])"
proof -
  have h: "exit_status empty_input_outcome = 0" "stderr empty_input_outcome = []"
    by (simp_all add: empty_input_outcome_def)
  from dfu_output_layout [OF empty_input_main h] empty_input_main h show ?thesis by blast
qed

end
